theory Spec2Isabelle
  imports Main
begin

section \<open>Tokenizer\<close>

text \<open>
  The tokenizer is the method \<open>tokenize_request\<close> of the class \<open>HTTPRequestCFGParser\<close>:
  \<^verbatim>\<open>
  def tokenize_request(self, request_line: str) -> List[str]:
      normalized = re.sub(r'\s+', ' ', request_line.strip())
      tokens = []
      current_token = ""
      for char in normalized:
          if char == ' ':
              if current_token:
                  tokens.append(current_token)
                  current_token = ""
              tokens.append(char)  # Space as separate token
          else:
              current_token += char
      if current_token:
          tokens.append(current_token)
      return tokens
  \<close>
  A Python \<open>str\<close> is modelled as a \<open>string\<close>, a token as a \<open>string\<close>, the token list as a
  \<open>string list\<close>. The method reads no field of \<open>self\<close>, so the model has no such argument.
\<close>

subsection \<open>Whitespace: \<open>str.strip\<close> and \<open>re.sub(r'\s+', ' ', _)\<close>\<close>

text \<open>
  \<open>str.strip()\<close> without argument and the class \<open>\s\<close> of a \<open>str\<close> pattern both use Python's
  \<open>str.isspace\<close>. Among the code points below 256, the ones a \<open>char\<close> can hold, these are
  tab, line feed, vertical tab, form feed, carriage return, the four separators 28 to 31,
  the space, NEL (133) and the no-break space (160).
\<close>

definition isspace :: "char \<Rightarrow> bool" where
  "isspace c = (of_char c \<in> {9::nat, 10, 11, 12, 13, 28, 29, 30, 31, 32, 133, 160})"

text \<open>\<open>request_line.strip()\<close>: the whitespace at both ends is removed.\<close>

definition strip :: "string \<Rightarrow> string" where
  "strip s = rev (dropWhile isspace (rev (dropWhile isspace s)))"

text \<open>
  \<open>re.sub(r'\s+', ' ', s)\<close>: from left to right, every maximal run of whitespace is replaced
  by one space; the other characters are copied.
\<close>

function sub_spaces :: "string \<Rightarrow> string" where
  "sub_spaces [] = []"
| "sub_spaces (c # cs) =
     (if isspace c then CHR '' '' # sub_spaces (dropWhile isspace cs)
      else c # sub_spaces cs)"
  by pat_completeness auto
termination
  by (relation "measure length") (auto simp: less_Suc_eq_le length_dropWhile_le)

subsection \<open>The loop over the characters\<close>

text \<open>
  The \<open>for\<close> loop with its two variables \<open>tokens\<close> and \<open>current_token\<close>, and the
  \<open>if current_token\<close> that follows it (the case of the empty rest).
\<close>

fun tokenize_loop :: "string \<Rightarrow> string list \<Rightarrow> string \<Rightarrow> string list" where
  "tokenize_loop [] tokens current_token =
     (if current_token \<noteq> [] then tokens @ [current_token] else tokens)"
| "tokenize_loop (c # cs) tokens current_token =
     (if c = CHR '' '' then
        (if current_token \<noteq> []
         then tokenize_loop cs ((tokens @ [current_token]) @ [[c]]) []
         else tokenize_loop cs (tokens @ [[c]]) current_token)
      else tokenize_loop cs tokens (current_token @ [c]))"

definition tokenize_request :: "string \<Rightarrow> string list" where
  "tokenize_request request_line =
     (let normalized = sub_spaces (strip request_line)
      in tokenize_loop normalized [] [])"

text \<open>
  \<open>adjacent x xs\<close>: two neighbours in \<open>xs\<close> are both \<open>x\<close>. It states "two consecutive space
  tokens" and "two consecutive spaces".
\<close>

fun adjacent :: "'a \<Rightarrow> 'a list \<Rightarrow> bool" where
  "adjacent x (a # b # r) = ((a = x \<and> b = x) \<or> adjacent x (b # r))"
| "adjacent x _ = False"

section \<open>The validation entry point\<close>

text \<open>
  The method \<open>validate_request\<close> of \<open>HTTPRequestCFGParser\<close>:
  \<^verbatim>\<open>
  def validate_request(self, request_line: str) -> Dict[str, Any]:
      result = {'is_valid': False, 'request_line': request_line, 'tokens': [],
                'parse_trees': [], 'errors': [],
                'grammar_rules': self.get_grammar_rules(),
                'timestamp': datetime.now().isoformat()}
      try:
          tokens = self.tokenize_request(request_line)
          result['tokens'] = tokens
          if self.use_regex:
              validation_result = self._validate_with_regex(tokens)
              result['is_valid'] = validation_result['is_valid']
              result['errors'] = validation_result['errors']
              if validation_result['is_valid']:
                  result['parse_trees'] = [self._create_parse_tree(tokens)]
          else:
              if self.parser:
                  parse_trees = list(self.parser.parse(tokens))
                  if parse_trees:
                      result['is_valid'] = True
                      result['parse_trees'] = [self._tree_to_dict(tree) for tree in parse_trees]
                  else:
                      result['errors'] = self._analyze_parsing_errors(tokens)
      except Exception as e:
          result['errors'].append(f"Parsing error: {str(e)}")
      return result
  \<close>
  A call that may raise returns \<open>Inl e\<close> when it raises (\<open>e\<close> is the message \<open>str(e)\<close> of the
  exception) and \<open>Inr v\<close> when it returns \<open>v\<close>.
\<close>

type_synonym exn = string

subsection \<open>List objects\<close>

text \<open>
  A Python list is an object. The assignment \<open>result['errors'] = validation_result['errors']\<close>
  makes the key refer to the very list the validator returned, and
  \<open>result['errors'].append(...)\<close> in the \<open>except\<close> clause changes that list in place. Who else
  sees the change depends on who else holds the list, so a list that a collaborator returns
  is one of two things: \<open>Fresh es\<close>, a list with the elements \<open>es\<close> that was built for this
  call and that nothing else refers to; or \<open>Held a\<close>, a list object that the collaborator keeps
  (in a field or a module constant) and returns again, identified by its address \<open>a\<close>. The
  heap maps the addresses of the held lists to their elements. The list \<open>[]\<close> that the method
  itself builds for the key \<open>errors\<close> is fresh.
\<close>

type_synonym address = nat

type_synonym heap = "address \<Rightarrow> string list"

datatype list_ref = Fresh "string list" | Held address

text \<open>The elements of a list, as a reader of the list sees them.\<close>

fun contents :: "heap \<Rightarrow> list_ref \<Rightarrow> string list" where
  "contents h (Fresh es) = es"
| "contents h (Held a) = h a"

text \<open>
  \<open>list.append\<close>: the list is changed in place, so appending to a held list changes the
  heap, and the reference stays the same.
\<close>

fun list_append :: "list_ref \<Rightarrow> string \<Rightarrow> heap \<Rightarrow> list_ref \<times> heap" where
  "list_append (Fresh es) m h = (Fresh (es @ [m]), h)"
| "list_append (Held a) m h = (Held a, h(a := h a @ [m]))"

subsection \<open>The object and the result\<close>

text \<open>
  The object \<open>self\<close> is a record of what the method reads from it. The flag \<open>use_regex\<close> and
  the field \<open>parser\<close> (\<open>None\<close>, or an object with a \<open>parse\<close> method) are data. The methods
  \<open>_validate_with_regex\<close>, \<open>_create_parse_tree\<close>, \<open>_tree_to_dict\<close>,
  \<open>_analyze_parsing_errors\<close> and \<open>get_grammar_rules\<close> are not in the sources, and the parser
  object is the chart parser of a library: they are fields of the record, so every theorem
  about \<open>validate_request\<close> holds for whatever they compute. Each of them may raise. The
  two that return a list of messages return a reference to a list object.
  \<open>get_grammar_rules\<close> takes no argument besides \<open>self\<close>, so its field is the outcome of the
  call. The reading of the clock, \<open>datetime.now().isoformat()\<close>, is the argument \<open>now\<close> of
  the model.
\<close>

record ('t, 'd, 'r) HTTPRequestCFGParser =
  use_regex :: bool
  parser :: "(string list \<Rightarrow> exn + 't list) option"
  validate_with_regex :: "string list \<Rightarrow> exn + bool \<times> list_ref"
  create_parse_tree :: "string list \<Rightarrow> exn + 'd"
  tree_to_dict :: "'t \<Rightarrow> exn + 'd"
  analyze_parsing_errors :: "string list \<Rightarrow> exn + list_ref"
  get_grammar_rules :: "exn + 'r"

text \<open>
  The dictionary \<open>result\<close>, one field for each of its keys. The key \<open>errors\<close> holds a
  reference to a list object. The argument \<open>request_line\<close> and the locals \<open>tokens\<close> and
  \<open>parse_trees\<close>, whose names these fields take, are \<open>line\<close>, \<open>toks\<close> and \<open>trees\<close> below.
\<close>

record ('d, 'r) ValidationResult =
  is_valid :: bool
  request_line :: string
  tokens :: "string list"
  parse_trees :: "'d list"
  errors :: list_ref
  grammar_rules :: "'r"
  timestamp :: string

text \<open>
  The list comprehension \<open>[f(x) for x in xs]\<close> where \<open>f\<close> may raise: the first exception
  ends it, and no list is built.
\<close>

fun list_comprehension :: "('a \<Rightarrow> exn + 'b) \<Rightarrow> 'a list \<Rightarrow> exn + 'b list" where
  "list_comprehension f [] = Inr []"
| "list_comprehension f (x # xs) =
     (case f x of
        Inl e \<Rightarrow> Inl e
      | Inr y \<Rightarrow> (case list_comprehension f xs of Inl e \<Rightarrow> Inl e | Inr ys \<Rightarrow> Inr (y # ys)))"

subsection \<open>The method\<close>

text \<open>
  The \<open>except\<close> clause: the message is appended, in place, to the list that the key \<open>errors\<close>
  refers to at the moment of the exception; the other keys keep what was assigned before
  it.
\<close>

definition except_handler ::
  "('d, 'r) ValidationResult \<Rightarrow> exn \<Rightarrow> heap \<Rightarrow> ('d, 'r) ValidationResult \<times> heap" where
  "except_handler result e h =
     (case list_append (errors result) (''Parsing error: '' @ e) h of
        (l, h') \<Rightarrow> (result\<lparr>errors := l\<rparr>, h'))"

text \<open>
  The \<open>try\<close> statement with its \<open>except\<close> clause, run on the dictionary \<open>result\<close> and the heap
  \<open>h\<close>: it returns the dictionary and the heap as they are when the statement ends. No
  exception leaves it, since \<open>except Exception\<close> catches what the calls raise.
\<close>

definition try_block ::
  "('t, 'd, 'r) HTTPRequestCFGParser \<Rightarrow> ('d, 's) ValidationResult \<Rightarrow> string \<Rightarrow> heap
     \<Rightarrow> ('d, 's) ValidationResult \<times> heap" where
  "try_block self result line h =
     (let toks = tokenize_request line;
          result = result\<lparr>tokens := toks\<rparr>
      in if use_regex self then
           (case validate_with_regex self toks of
              Inl e \<Rightarrow> except_handler result e h
            | Inr (valid, errs) \<Rightarrow>
                (let result = result\<lparr>is_valid := valid, errors := errs\<rparr>
                 in if valid then
                      (case create_parse_tree self toks of
                         Inl e \<Rightarrow> except_handler result e h
                       | Inr d \<Rightarrow> (result\<lparr>parse_trees := [d]\<rparr>, h))
                    else (result, h)))
         else
           (case parser self of
              None \<Rightarrow> (result, h)
            | Some parse \<Rightarrow>
                (case parse toks of
                   Inl e \<Rightarrow> except_handler result e h
                 | Inr trees \<Rightarrow>
                     if trees \<noteq> [] then
                       (let result = result\<lparr>is_valid := True\<rparr>
                        in case list_comprehension (tree_to_dict self) trees of
                             Inl e \<Rightarrow> except_handler result e h
                           | Inr ds \<Rightarrow> (result\<lparr>parse_trees := ds\<rparr>, h))
                     else
                       (case analyze_parsing_errors self toks of
                          Inl e \<Rightarrow> except_handler result e h
                        | Inr es \<Rightarrow> (result\<lparr>errors := es\<rparr>, h)))))"

text \<open>The dictionary that the first statement of the method builds.\<close>

definition new_result :: "'r \<Rightarrow> string \<Rightarrow> string \<Rightarrow> ('d, 'r) ValidationResult" where
  "new_result rules now line =
     \<lparr>is_valid = False, request_line = line, tokens = [], parse_trees = [],
      errors = Fresh [], grammar_rules = rules, timestamp = now\<rparr>"

text \<open>
  The method. The call \<open>self.get_grammar_rules()\<close> stands in the first statement, before
  \<open>try:\<close>, so an exception it raises is not caught and leaves the method (\<open>Inl e\<close>).
  Otherwise the method returns the dictionary (\<open>Inr\<close>), and the heap is what the call leaves
  behind.
\<close>

definition validate_request ::
  "('t, 'd, 'r) HTTPRequestCFGParser \<Rightarrow> string \<Rightarrow> string \<Rightarrow> heap
     \<Rightarrow> exn + ('d, 'r) ValidationResult \<times> heap" where
  "validate_request self now line h =
     (case get_grammar_rules self of
        Inl e \<Rightarrow> Inl e
      | Inr rules \<Rightarrow> Inr (try_block self (new_result rules now line) line h))"

subsection \<open>The caller\<close>

text \<open>
  What a caller sees of a call when it returns: the exception, or the keys \<open>is_valid\<close>,
  \<open>tokens\<close>, \<open>parse_trees\<close> and \<open>errors\<close> of the dictionary (the four that the
  \<open>ValidationResult\<close> of the specification has), the last one read through the heap.
\<close>

type_synonym 'd response = "bool \<times> string list \<times> 'd list \<times> string list"

fun response :: "exn + ('d, 'r) ValidationResult \<times> heap \<Rightarrow> exn + 'd response" where
  "response (Inl e) = Inl e"
| "response (Inr (r, h)) = Inr (is_valid r, tokens r, parse_trees r, contents h (errors r))"


section \<open>Grammar, chart recognizer and parse tree builder\<close>

text \<open>
  The sources delegate recognition to a chart parser of a library (\<open>self.parser.parse\<close>), and
  the constructor that builds it from the grammar is not among them. The definitions of this
  section are therefore modelled from the specification (its sections 3, 4.3 and 4.4).
\<close>

subsection \<open>Data model\<close>

text \<open>
  Modelled from the spec: the Symbol of section 3, "a tagged variant of {Terminal(string
  literal or literal-class), NonTerminal(name)}"; no grammar type is in the sources.
\<close>

datatype terminal = Literal string | LiteralClass "string list"

datatype symbol = Terminal terminal | NonTerminal string

text \<open>
  Modelled from the spec: a Production is a head and an ordered body (an empty body is an
  epsilon rule); a Grammar is a start symbol and its productions, several for one head
  being alternatives. The productions of a head are a set in the specification: a
  production listed twice counts once, which is why the recognizer below reads the list
  through \<open>remdups\<close>.
\<close>

type_synonym production = "string \<times> symbol list"

record Grammar =
  start :: string
  productions :: "production list"

text \<open>
  Modelled from the spec: the ParseTree of section 3, a "node with label (terminal text or
  non-terminal name), span, ordered children (empty for terminal nodes)". A span \<open>(i, j)\<close>
  is the half-open interval \<open>[i, j)\<close> of token positions.
\<close>

datatype span_tree = Tree (label: string) (span: "nat \<times> nat") (children: "span_tree list")

subsection \<open>Derivability\<close>

text \<open>
  Modelled from the spec: terminal matching, "for literal terminals, exact text equality;
  for literal-class terminals, membership test".
\<close>

fun terminal_matches :: "terminal \<Rightarrow> string \<Rightarrow> bool" where
  "terminal_matches (Literal s) tok = (tok = s)"
| "terminal_matches (LiteralClass ss) tok = (tok \<in> set ss)"

text \<open>
  Modelled from the spec: derivability, the notion its claims about the recognizer are
  stated in ("decide derivability"; in the glossary, production rules rewrite a
  non-terminal into a sequence of terminals and non-terminals, down to the observed
  terminal sequence). A terminal derives the one-token sequence of a token it matches; a
  non-terminal derives a sequence when one of its productions has a body whose symbols
  derive, in order, consecutive pieces of the sequence. An empty body derives the empty
  sequence. The relation does not mention a chart; the recognizer below is proved to
  decide it.
\<close>

inductive derives :: "Grammar \<Rightarrow> symbol \<Rightarrow> string list \<Rightarrow> bool" for G where
  terminal: "terminal_matches tm tok \<Longrightarrow> derives G (Terminal tm) [tok]"
| production: "(N, body) \<in> set (productions G) \<Longrightarrow> list_all2 (derives G) body ws
     \<Longrightarrow> derives G (NonTerminal N) (concat ws)"

subsection \<open>Recognizer\<close>

text \<open>
  Modelled from the spec: a terminal is proven over \<open>[a, b)\<close> when the span is the one
  token \<open>a\<close> and the terminal matches it.
\<close>

definition token_matches :: "string list \<Rightarrow> terminal \<Rightarrow> nat \<Rightarrow> nat \<Rightarrow> bool" where
  "token_matches toks tm a b = (b = Suc a \<and> a < length toks \<and> terminal_matches tm (toks ! a))"

text \<open>
  Modelled from the spec: the split points. \<open>sub_spans m i j\<close> lists every way to cut
  \<open>[i, j)\<close> into \<open>m\<close> consecutive spans, one for each body position ("iterating split points
  across all body positions"). A piece may be empty, for a body symbol that derives the
  empty sequence over a zero-length span: the specification permits epsilon rules and
  asks for arbitrary context-free grammars, so the split points of \<open>[i, j)\<close> range over
  \<open>i \<le> k \<le> j\<close>. No span is cut into zero pieces but an empty one: an empty body is
  derivable over the zero-length spans \<open>[i, i)\<close> only.
\<close>

fun sub_spans :: "nat \<Rightarrow> nat \<Rightarrow> nat \<Rightarrow> (nat \<times> nat) list list" where
  "sub_spans 0 i j = (if i = j then [[]] else [])"
| "sub_spans (Suc m) i j =
     concat (map (\<lambda>k. map ((#) (i, k)) (sub_spans m k j)) [i ..< Suc j])"

text \<open>
  Modelled from the spec: the chart is a table of items \<open>(N, i, j)\<close>, "the non-terminal \<open>N\<close>
  derives exactly the tokens of \<open>[i, j)\<close>". A body symbol is proven over a sub-span, against
  a table \<open>C\<close>, when it is a terminal that matches there or a non-terminal that the table
  holds there.
\<close>

type_synonym item = "string \<times> nat \<times> nat"

fun proven :: "string list \<Rightarrow> item list \<Rightarrow> symbol \<times> nat \<times> nat \<Rightarrow> bool" where
  "proven toks C (Terminal tm, a, b) = token_matches toks tm a b"
| "proven toks C (NonTerminal A, a, b) = ((A, a, b) \<in> set C)"

text \<open>
  Modelled from the spec: the justifications of the span \<open>[i, j)\<close> against a table: one
  (head, body, sub-spans of the body symbols) for every production and every choice of
  split points whose body symbols are all proven over their sub-spans. Several
  justifications of one non-terminal are all kept ("all justifications are retained").
\<close>

type_synonym justification = "string \<times> symbol list \<times> (nat \<times> nat) list"

definition justified ::
  "Grammar \<Rightarrow> string list \<Rightarrow> item list \<Rightarrow> nat \<Rightarrow> nat \<Rightarrow> justification list" where
  "justified G toks C i j =
     concat (map (\<lambda>(N, body).
        map (\<lambda>sp. (N, body, sp))
          (filter (\<lambda>sp. list_all (proven toks C) (zip body sp)) (sub_spans (length body) i j)))
       (remdups (productions G)))"

text \<open>Modelled from the spec: the spans \<open>[i, j)\<close> of \<open>n\<close> tokens, \<open>0 \<le> i \<le> j \<le> n\<close>.\<close>

definition spans :: "nat \<Rightarrow> (nat \<times> nat) list" where
  "spans n = concat (map (\<lambda>i. map (Pair i) [i ..< Suc n]) [0 ..< Suc n])"

text \<open>
  Modelled from the spec: one round of the bottom-up dynamic programming. It records a
  non-terminal over a span when a production of it is justified there by what the table
  already holds. On the empty table a round records the non-terminals with an epsilon
  rule over every \<open>[i, i)\<close> and those with a body of terminals over the spans it matches
  (for one terminal, the initialisation step of the specification over the spans of
  length 1); a later round combines what was proven before it.
\<close>

definition step :: "Grammar \<Rightarrow> string list \<Rightarrow> item list \<Rightarrow> item list" where
  "step G toks C =
     concat (map (\<lambda>(i, j). map (\<lambda>(N, body, sp). (N, i, j)) (justified G toks C i j))
       (spans (length toks)))"

text \<open>
  Modelled from the spec: filling the table. Rounds are run until one adds nothing. The
  specification fills the table by increasing span length, which is complete when every
  body symbol but one covers at least one token; a production \<open>N \<rightarrow> A\<close>, or a body with
  symbols that derive the empty sequence, needs an item of the same span as the one it
  justifies, so for the "arbitrary" grammars of the specification the rounds go on until
  nothing new is proven. The table holds at most one item for each head of a production
  and each span, which bounds the number of rounds that can add an item: the loop is the
  recursion on that bound.
\<close>

fun fill :: "nat \<Rightarrow> Grammar \<Rightarrow> string list \<Rightarrow> item list \<Rightarrow> item list" where
  "fill 0 G toks C = C"
| "fill (Suc k) G toks C =
     (let new = filter (\<lambda>x. x \<notin> set C) (remdups (step G toks C))
      in if new = [] then C else fill k G toks (C @ new))"

definition chart :: "Grammar \<Rightarrow> string list \<Rightarrow> item list" where
  "chart G toks = fill (length (productions G) * length (spans (length toks))) G toks []"


text \<open>
  Modelled from the spec: a non-terminal is recorded over a span when the table holds the
  item, and "recognition succeeds iff the start symbol is recorded over the full span
  \<open>[0, n)\<close>".
\<close>

definition recorded :: "Grammar \<Rightarrow> string list \<Rightarrow> string \<Rightarrow> nat \<Rightarrow> nat \<Rightarrow> bool" where
  "recorded G toks N i j = ((N, i, j) \<in> set (chart G toks))"

definition recognize :: "Grammar \<Rightarrow> string list \<Rightarrow> bool" where
  "recognize G toks = recorded G toks (start G) 0 (length toks)"

subsection \<open>Parse tree builder\<close>

text \<open>
  Modelled from the spec: the builder of section 4.4, "one tree per distinct justification
  recorded in the chart for the top-level span, recursively expanding child
  justifications". A terminal of the body becomes a leaf labelled with the text of its
  token; a non-terminal of the body is expanded from the justifications of its sub-span.
  A sub-span is strictly shorter than the span, or it is the span itself; in the second
  case the expansion goes on over the same span, and \<open>vis\<close> lists the non-terminals that
  are being expanded over it: a non-terminal is not expanded again inside its own
  expansion over the same span. Without this the expansion of a grammar with a cycle
  (\<open>S \<rightarrow> S\<close>) would not end; with it the builder returns every derivation tree in which
  no branch repeats a non-terminal over one span, and these are all the derivation trees
  whenever there are finitely many (both are proved below).
\<close>

function expand ::
  "Grammar \<Rightarrow> string list \<Rightarrow> item list \<Rightarrow> string list \<Rightarrow> string \<Rightarrow> nat \<Rightarrow> nat \<Rightarrow> span_tree list" where
  "expand G toks C vis N i j =
     (if N \<in> set vis \<or> N \<notin> fst ` set (productions G) then []
      else concat (map (\<lambda>(h, body, sp).
        if h = N
        then map (Tree N (i, j))
               (product_lists (map (\<lambda>(X, a, b).
                  (case X of
                     Terminal tm \<Rightarrow>
                       (if token_matches toks tm a b then [Tree (toks ! a) (a, b) []] else [])
                   | NonTerminal A \<Rightarrow>
                       (if b - a < j - i then expand G toks C [] A a b
                        else expand G toks C (N # vis) A i j)))
                 (zip body sp)))
        else [])
       (justified G toks C i j)))"
  by pat_completeness auto
termination
proof (relation "measures [\<lambda>(G, toks, C, vis, N, i, j). j - i,
    \<lambda>(G, toks, C, vis, N, i, j). card (fst ` set (productions G) - set vis)]", goal_cases)
  case 1
  show ?case by simp
next
  case 2
  then show ?case by auto
next
  case (3 G toks C vis N)
  have "fst ` set (productions G) - set (N # vis) \<subset> fst ` set (productions G) - set vis"
    using 3(1) by auto
  then have "card (fst ` set (productions G) - set (N # vis))
      < card (fst ` set (productions G) - set vis)"
    by (intro psubset_card_mono) auto
  then show ?case by simp
qed

declare expand.simps [simp del]

text \<open>
  Modelled from the spec: \<open>build_trees\<close>, "given a chart that proved the start symbol over
  the full span". Trees that are equal are one tree ("one tree per distinct
  justification"): two productions can give the same tree when a literal and a literal
  class match the same token.
\<close>

definition build_trees :: "Grammar \<Rightarrow> string list \<Rightarrow> span_tree list" where
  "build_trees G toks =
     (let C = chart G toks
      in if (start G, 0, length toks) \<in> set C
         then remdups (expand G toks C [] (start G) 0 (length toks))
         else [])"

text \<open>
  Modelled from the spec: the parser object stored in \<open>self.parser\<close>. Its \<open>parse\<close> returns the
  trees of the builder and raises nothing ("no derivation found is a normal outcome").
\<close>

definition chart_parser :: "Grammar \<Rightarrow> string list \<Rightarrow> exn + span_tree list" where
  "chart_parser G toks = Inr (build_trees G toks)"

text \<open>
  Modelled from the spec: the operation \<open>validate(line, grammar)\<close> of section 6. It is what
  \<open>validate_request\<close> of the sources returns on an object whose \<open>parser\<close> field holds the chart
  parser of the grammar (the constructor that stores it is not in the sources) and whose
  \<open>get_grammar_rules\<close> returns the productions of the grammar ("the engine must expose
  productions read-only"), so that the method does not raise; the call starts from a heap
  whose held lists are empty. The other fields of the object and the reading of the clock
  are arguments. The lemma \<open>validate_request_validate\<close> states the relation to
  \<open>validate_request\<close>.
\<close>

definition validate ::
  "(span_tree, 'd, 'r) HTTPRequestCFGParser \<Rightarrow> string \<Rightarrow> string \<Rightarrow> Grammar
     \<Rightarrow> ('d, production list) ValidationResult" where
  "validate self now line G =
     fst (try_block (self\<lparr>parser := Some (chart_parser G)\<rparr>)
            (new_result (productions G) now line) line (\<lambda>a. []))"

text \<open>
  Modelled from the spec: grammar extension, "adding a new alternative production".
\<close>

definition add_production :: "Grammar \<Rightarrow> production \<Rightarrow> Grammar" where
  "add_production G p = G\<lparr>productions := productions G @ [p]\<rparr>"

subsection \<open>The span-coverage invariant\<close>






subsection \<open>Derivation trees\<close>

text \<open>
  Modelled from the spec: the spans \<open>sp\<close> follow one another from \<open>i\<close> to \<open>j\<close>; a span may be
  empty.
\<close>

fun consecutive :: "nat \<Rightarrow> (nat \<times> nat) list \<Rightarrow> nat \<Rightarrow> bool" where
  "consecutive i [] j = (i = j)"
| "consecutive i ((a, b) # r) j = (a = i \<and> a \<le> b \<and> consecutive b r j)"

text \<open>
  Modelled from the spec: the derivations that its sentences on ambiguity speak of ("the
  grammar genuinely allows two derivations"), as trees: in the glossary a derivation is "a
  tree recording how a start symbol was expanded, via productions, down to the observed
  terminal sequence". \<open>derivation G toks X t\<close>: the tree \<open>t\<close> is a derivation of the tokens
  of its span from the symbol \<open>X\<close>. For a terminal it is the leaf of a token the terminal
  matches. For a non-terminal it is a node labelled with it whose children are
  derivations from the symbols of the body of one of its productions, over consecutive
  spans from the start to the end of the span of the node. The definition is a test on
  a given tree; it does not mention the chart or the builder.
\<close>

function (sequential) derivation ::
  "Grammar \<Rightarrow> string list \<Rightarrow> symbol \<Rightarrow> span_tree \<Rightarrow> bool" where
  "derivation G toks (Terminal tm) t =
     (children t = [] \<and> token_matches toks tm (fst (span t)) (snd (span t))
      \<and> label t = toks ! fst (span t))"
| "derivation G toks (NonTerminal N) (Tree l (i, j) cs) =
     (l = N \<and> j \<le> length toks
      \<and> list_ex (\<lambda>(h, body). h = N \<and> length body = length cs
             \<and> consecutive i (map span cs) j
             \<and> list_all (\<lambda>(X, c). derivation G toks X c) (zip body cs))
          (productions G))"
  by pat_completeness auto
termination
proof -
  have sz: "size c < Suc (size_list size cs)" if "(X, c) \<in> set (zip body cs)"
    for X c and body :: "symbol list" and cs :: "span_tree list"
  proof -
    have "c \<in> set cs" using that by (rule set_zip_rightD)
    then show ?thesis by (induction cs) auto
  qed
  show ?thesis
    by (relation "measure (\<lambda>(G, toks, X, t). size t)") (auto dest: sz)
qed

declare derivation.simps(2) [simp del]


section \<open>Notions used in the proofs\<close>

text \<open>The tokens of the span \<open>[i, j)\<close>.\<close>

definition slice :: "'a list \<Rightarrow> nat \<Rightarrow> nat \<Rightarrow> 'a list" where
  "slice xs i j = take (j - i) (drop i xs)"

text \<open>The spans of the pieces \<open>ws\<close> laid one after another from position \<open>i\<close>.\<close>

fun offsets :: "nat \<Rightarrow> 'a list list \<Rightarrow> (nat \<times> nat) list" where
  "offsets i [] = []"
| "offsets i (w # ws) = (i, i + length w) # offsets (i + length w) ws"

text \<open>The items a table can hold: a head of a production over a span of the input.\<close>

definition items :: "Grammar \<Rightarrow> string list \<Rightarrow> item set" where
  "items G toks = fst ` set (productions G) \<times> set (spans (length toks))"

text \<open>A table is sound when every item it holds is derivable.\<close>

definition sound :: "Grammar \<Rightarrow> string list \<Rightarrow> item list \<Rightarrow> bool" where
  "sound G toks C =
     (\<forall>N i j. (N, i, j) \<in> set C \<longrightarrow>
        i \<le> j \<and> j \<le> length toks \<and> derives G (NonTerminal N) (slice toks i j))"

text \<open>A table is complete when it holds every non-terminal over every span it derives.\<close>

definition complete :: "Grammar \<Rightarrow> string list \<Rightarrow> item list \<Rightarrow> bool" where
  "complete G toks C =
     (\<forall>A t. derivation G toks (NonTerminal A) t \<longrightarrow> (A, fst (span t), snd (span t)) \<in> set C)"

text \<open>The leaf of a token: no children and a span of one token.\<close>

definition is_leaf :: "span_tree \<Rightarrow> bool" where
  "is_leaf t = (children t = [] \<and> snd (span t) = Suc (fst (span t)))"


text \<open>The nodes below the root of a tree, and the root, that have the span of the root.\<close>

fun chain :: "span_tree \<Rightarrow> span_tree list" where
  "chain (Tree N sp cs) =
     Tree N sp cs # concat (map chain (filter (\<lambda>c. \<not> is_leaf c \<and> span c = sp) cs))"

text \<open>The trees of one body symbol in \<open>expand\<close>.\<close>

definition piece_trees ::
  "Grammar \<Rightarrow> string list \<Rightarrow> item list \<Rightarrow> string list \<Rightarrow> string \<Rightarrow> nat \<Rightarrow> nat
     \<Rightarrow> symbol \<times> nat \<times> nat \<Rightarrow> span_tree list" where
  "piece_trees G toks C vis N i j = (\<lambda>(X, a, b).
      (case X of
         Terminal tm \<Rightarrow> (if token_matches toks tm a b then [Tree (toks ! a) (a, b) []] else [])
       | NonTerminal A \<Rightarrow>
           (if b - a < j - i then expand G toks C [] A a b
            else expand G toks C (N # vis) A i j)))"




section \<open>Tree statistics of the front end\<close>

text \<open>
  The helpers of \<open>AIAssistant.tsx\<close>:
  \<^verbatim>\<open>
  function getNodeCount(node: ParseTree): number {
    if (!node) return 0;
    let count = 1;
    if (node.children) {
      count += node.children.reduce((sum, child) => sum + getNodeCount(child), 0);
    }
    return count;
  }
  function getNonTerminalCount(node: ParseTree): number {
    if (!node) return 0;
    let count = 0;
    if (node.children && node.children.length > 0) {
      count = 1; // This node is a non-terminal
      count += node.children.reduce((sum, child) => sum + getNonTerminalCount(child), 0);
    }
    return count;
  }
  function getTerminalCount(node: ParseTree): number {
    if (!node) return 0;
    if (!node.children || node.children.length === 0) {
      return 1; // This is a terminal
    }
    return node.children.reduce((sum, child) => sum + getTerminalCount(child), 0);
  }
  \<close>
  The interface \<open>ParseTree\<close> has a \<open>label\<close> and an array \<open>children\<close>. The helpers also accept
  what the interface excludes and JSON can hold: a missing node (\<open>!node\<close>, here \<open>Null\<close>) and a
  node without \<open>children\<close> (here \<open>None\<close>). \<open>reduce\<close> with an initial value is a left fold.
  The counts are natural numbers; a JavaScript \<open>number\<close> holds them exactly below
  \<open>2 ^ 53\<close>.
\<close>

datatype ParseTree = Null | TreeNode string "ParseTree list option"

fun getNodeCount :: "ParseTree \<Rightarrow> nat" where
  "getNodeCount Null = 0"
| "getNodeCount (TreeNode l ch) =
     (case ch of
        None \<Rightarrow> 1
      | Some cs \<Rightarrow> 1 + foldl (\<lambda>sum child. sum + getNodeCount child) 0 cs)"

fun getNonTerminalCount :: "ParseTree \<Rightarrow> nat" where
  "getNonTerminalCount Null = 0"
| "getNonTerminalCount (TreeNode l ch) =
     (case ch of
        None \<Rightarrow> 0
      | Some cs \<Rightarrow>
          if length cs > 0
          then 1 + foldl (\<lambda>sum child. sum + getNonTerminalCount child) 0 cs
          else 0)"

fun getTerminalCount :: "ParseTree \<Rightarrow> nat" where
  "getTerminalCount Null = 0"
| "getTerminalCount (TreeNode l ch) =
     (case ch of
        None \<Rightarrow> 1
      | Some cs \<Rightarrow>
          if length cs = 0 then 1
          else foldl (\<lambda>sum child. sum + getTerminalCount child) 0 cs)"

section \<open>Example grammars and engine objects\<close>

text \<open>
  Example 1 of the specification: the grammar \<open>S \<rightarrow> "A" SP "B"\<close>, the separator being the
  terminal of the single space.
\<close>

definition example_grammar :: Grammar where
  "example_grammar =
     \<lparr>start = ''S'',
      productions = [(''S'', [Terminal (Literal ''A''), Terminal (Literal '' ''),
                              Terminal (Literal ''B'')])]\<rparr>"

text \<open>An ambiguous grammar: \<open>S \<rightarrow> S SP S | "x"\<close>. The line \<open>"x x x"\<close> has two derivations.\<close>

definition ambiguous_grammar :: Grammar where
  "ambiguous_grammar =
     \<lparr>start = ''S'',
      productions = [(''S'', [NonTerminal ''S'', Terminal (Literal '' ''), NonTerminal ''S'']),
                     (''S'', [Terminal (Literal ''x'')])]\<rparr>"


text \<open>
  A grammar with a unit production: \<open>S \<rightarrow> A | "x"\<close>, \<open>A \<rightarrow> "x"\<close>. The line \<open>"x"\<close> has two
  derivations.
\<close>

definition unit_grammar :: Grammar where
  "unit_grammar =
     \<lparr>start = ''S'',
      productions = [(''S'', [NonTerminal ''A'']), (''S'', [Terminal (Literal ''x'')]),
                     (''A'', [Terminal (Literal ''x'')])]\<rparr>"

text \<open>
  A grammar with a symbol that derives the empty sequence inside a body: \<open>S \<rightarrow> A "x"\<close>,
  \<open>A \<rightarrow> \<epsilon>\<close>.
\<close>

definition nullable_grammar :: Grammar where
  "nullable_grammar =
     \<lparr>start = ''S'',
      productions = [(''S'', [NonTerminal ''A'', Terminal (Literal ''x'')]), (''A'', [])]\<rparr>"



text \<open>
  The JSON shape of a tree in the documentation of the repository,
  \<open>{"label": ..., "children": [...]}\<close>: the conversion drops the span.
\<close>

fun to_dict :: "span_tree \<Rightarrow> ParseTree" where
  "to_dict (Tree l sp cs) = TreeNode l (Some (map to_dict cs))"

text \<open>
  An engine object for the examples. Its collaborators stand in for the methods that are
  not in the sources: a regex validator that accepts every line with a fresh empty list
  of errors, a regex-mode tree of one node, the conversion \<open>to_dict\<close>, an analyzer that
  reports one message in a fresh list, and a \<open>get_grammar_rules\<close> that returns. They occur
  in witnesses and counterexamples only.
\<close>

definition example_engine :: "(span_tree, ParseTree, unit) HTTPRequestCFGParser" where
  "example_engine =
     \<lparr>use_regex = False,
      parser = None,
      validate_with_regex = (\<lambda>toks. Inr (True, Fresh [])),
      create_parse_tree = (\<lambda>toks. Inr (TreeNode ''RequestLine'' (Some []))),
      tree_to_dict = (\<lambda>t. Inr (to_dict t)),
      analyze_parsing_errors = (\<lambda>toks. Inr (Fresh [''No derivation''])),
      get_grammar_rules = Inr ()\<rparr>"


section \<open>Properties of the tokenizer\<close>

lemma isspace_space [simp]: "isspace CHR '' ''"
  by (simp add: isspace_def)

lemma tokenize_loop_acc:
  "tokenize_loop cs acc cur = acc @ tokenize_loop cs [] cur"
proof (induction cs arbitrary: acc cur)
  case Nil
  show ?case by simp
next
  case (Cons c cs)
  show ?case
  proof (cases "c = CHR '' ''")
    case True
    show ?thesis
    proof (cases "cur = []")
      case True
      show ?thesis
        using \<open>c = CHR '' ''\<close> True Cons.IH [of "acc @ [[c]]" cur] Cons.IH [of "[[c]]" cur]
        by simp
    next
      case False
      show ?thesis
        using \<open>c = CHR '' ''\<close> False Cons.IH [of "(acc @ [cur]) @ [[c]]" "[]"]
          Cons.IH [of "[cur, [c]]" "[]"]
        by simp
    qed
  next
    case False
    then show ?thesis using Cons.IH [of acc "cur @ [c]"] by simp
  qed
qed

lemma tokenize_loop_concat:
  "concat (tokenize_loop cs acc cur) = concat acc @ cur @ cs"
  by (induction cs arbitrary: acc cur) simp_all

lemma tokenize_loop_tokens:
  "CHR '' '' \<notin> set cur \<Longrightarrow> t \<in> set (tokenize_loop cs acc cur) \<Longrightarrow>
     t \<in> set acc \<or> t = '' '' \<or> (t \<noteq> [] \<and> CHR '' '' \<notin> set t)"
proof (induction cs arbitrary: acc cur)
  case Nil
  then show ?case by (auto split: if_splits)
next
  case (Cons c cs)
  show ?case
  proof (cases "c = CHR '' ''")
    case True
    then show ?thesis
      using Cons.prems Cons.IH [of "[]" "(acc @ [cur]) @ [[c]]"] Cons.IH [of cur "acc @ [[c]]"]
      by (auto split: if_splits)
  next
    case False
    then show ?thesis
      using Cons.prems Cons.IH [of "cur @ [c]" acc] by auto
  qed
qed

lemma tokenize_loop_head:
  "cur \<noteq> [] \<Longrightarrow> \<exists>r rest. tokenize_loop cs [] cur = (cur @ r) # rest"
proof (induction cs arbitrary: cur)
  case Nil
  then show ?case by simp
next
  case (Cons c cs)
  show ?case
  proof (cases "c = CHR '' ''")
    case True
    then show ?thesis using Cons.prems tokenize_loop_acc [of cs "[cur, [c]]" "[]"] by simp
  next
    case False
    obtain r rest where "tokenize_loop cs [] (cur @ [c]) = ((cur @ [c]) @ r) # rest"
      using Cons.IH [of "cur @ [c]"] by auto
    then show ?thesis using False by simp
  qed
qed

lemma tokenize_loop_starts_space:
  "tokenize_loop cs [] [] = '' '' # rest \<Longrightarrow> \<exists>cs'. cs = CHR '' '' # cs'"
proof (cases cs)
  case Nil
  assume "tokenize_loop cs [] [] = '' '' # rest"
  then show ?thesis using Nil by simp
next
  case (Cons c cs')
  assume a: "tokenize_loop cs [] [] = '' '' # rest"
  show ?thesis
  proof (cases "c = CHR '' ''")
    case True
    then show ?thesis using Cons by simp
  next
    case False
    obtain r rest' where "tokenize_loop cs' [] [c] = ([c] @ r) # rest'"
      using tokenize_loop_head [of "[c]" cs'] by auto
    then show ?thesis using a Cons False by simp
  qed
qed

lemma tokenize_loop_adjacent:
  "CHR '' '' \<notin> set cur \<Longrightarrow> adjacent '' '' (tokenize_loop cs [] cur) \<Longrightarrow> adjacent CHR '' '' cs"
proof (induction cs arbitrary: cur)
  case Nil
  then show ?case by (simp split: if_splits)
next
  case (Cons c cs)
  show ?case
  proof (cases "c = CHR '' ''")
    case False
    then have "adjacent CHR '' '' cs"
      using Cons.prems Cons.IH [of "cur @ [c]"] by simp
    then show ?thesis by (cases cs) simp_all
  next
    case True
    have eq: "tokenize_loop (c # cs) [] cur =
        (if cur \<noteq> [] then [cur] else []) @ '' '' # tokenize_loop cs [] []"
      using True tokenize_loop_acc [of cs "[cur, [c]]" "[]"] tokenize_loop_acc [of cs "[[c]]" "[]"]
      by simp
    have curne: "cur \<noteq> '' ''" using Cons.prems(1) by auto
    have "adjacent '' '' ('' '' # tokenize_loop cs [] [])"
      using Cons.prems(2) eq curne by (simp split: if_splits)
    then consider rest where "tokenize_loop cs [] [] = '' '' # rest"
      | "adjacent '' '' (tokenize_loop cs [] [])"
      by (cases "tokenize_loop cs [] []") auto
    then show ?thesis
    proof cases
      case 1
      then obtain cs' where "cs = CHR '' '' # cs'"
        using tokenize_loop_starts_space by blast
      then show ?thesis using True by simp
    next
      case 2
      then have "adjacent CHR '' '' cs" using Cons.IH [of "[]"] by simp
      then show ?thesis by (cases cs) simp_all
    qed
  qed
qed

lemma sub_spaces_head:
  "sub_spaces s = c # r \<Longrightarrow> \<not> isspace (hd s) \<Longrightarrow> c \<noteq> CHR '' ''"
  by (cases s) (auto split: if_splits)

lemma sub_spaces_no_adjacent: "\<not> adjacent CHR '' '' (sub_spaces s)"
proof (induction s rule: sub_spaces.induct)
  case 1
  show ?case by simp
next
  case (2 c cs)
  show ?case
  proof (cases "isspace c")
    case True
    let ?d = "dropWhile isspace cs"
    have ih: "\<not> adjacent CHR '' '' (sub_spaces ?d)" using 2(1) True by simp
    show ?thesis
    proof (cases "sub_spaces ?d")
      case Nil
      then show ?thesis using True by simp
    next
      case (Cons x xs)
      then have "?d \<noteq> []" by (metis sub_spaces.simps(1) list.distinct(1))
      then have "\<not> isspace (hd ?d)" by (simp add: hd_dropWhile)
      then have "x \<noteq> CHR '' ''" using sub_spaces_head Cons by blast
      then show ?thesis using True ih Cons by simp
    qed
  next
    case False
    then have ih: "\<not> adjacent CHR '' '' (sub_spaces cs)" using 2(2) by simp
    have "c \<noteq> CHR '' ''" using False by auto
    then show ?thesis using False ih by (cases "sub_spaces cs") simp_all
  qed
qed

lemma dropWhile_all: "list_all P xs \<Longrightarrow> dropWhile P (xs @ ys) = dropWhile P ys"
  by (induction xs) simp_all

lemma dropWhile_not_all:
  "\<not> list_all P xs \<Longrightarrow> dropWhile P (xs @ ys) = dropWhile P xs @ ys"
  by (induction xs) simp_all

lemma strip_all_space: "list_all isspace s \<Longrightarrow> strip s = []"
proof -
  assume "list_all isspace s"
  then have "dropWhile isspace s = []" by (simp add: list_all_iff)
  then show ?thesis by (simp add: strip_def del: dropWhile_eq_Nil_conv)
qed

lemma strip_space_left: "list_all isspace l \<Longrightarrow> strip (l @ s) = strip s"
  by (simp add: strip_def dropWhile_all)

lemma strip_space_right:
  assumes "list_all isspace r"
  shows "strip (s @ r) = strip s"
proof (cases "list_all isspace s")
  case True
  then have "list_all isspace (s @ r)" using assms by simp
  then show ?thesis using True by (simp only: strip_all_space)
next
  case False
  have r: "list_all isspace (rev r)" using assms by (simp add: list_all_iff)
  have "dropWhile isspace (s @ r) = dropWhile isspace s @ r"
    using False by (rule dropWhile_not_all)
  then have "rev (dropWhile isspace (s @ r)) = rev r @ rev (dropWhile isspace s)" by simp
  then show ?thesis using dropWhile_all [OF r] by (simp add: strip_def)
qed

lemma strip_pad:
  "list_all isspace l \<Longrightarrow> list_all isspace r \<Longrightarrow> strip (l @ s @ r) = strip s"
  using strip_space_left [of l "s @ r"] strip_space_right [of r s] by simp

lemma strip_middle:
  assumes "\<not> list_all isspace a" "\<not> list_all isspace b"
  shows "strip (a @ m @ b) = dropWhile isspace a @ m @ rev (dropWhile isspace (rev b))"
proof -
  have b: "\<not> list_all isspace (rev b)" using assms(2) by (simp add: list_all_iff)
  have "dropWhile isspace (a @ m @ b) = dropWhile isspace a @ m @ b"
    using assms(1) by (rule dropWhile_not_all)
  then have "rev (dropWhile isspace (a @ m @ b)) = rev b @ (rev m @ rev (dropWhile isspace a))"
    by simp
  then have "dropWhile isspace (rev (dropWhile isspace (a @ m @ b)))
      = dropWhile isspace (rev b) @ (rev m @ rev (dropWhile isspace a))"
    using dropWhile_not_all [OF b] by simp
  then show ?thesis by (simp add: strip_def)
qed

lemma sub_spaces_run:
  assumes "ws \<noteq> []" "list_all isspace ws"
  shows "sub_spaces (x @ ws @ y) = sub_spaces (x @ '' '' @ y)"
proof (induction x rule: sub_spaces.induct)
  case 1
  obtain w ws' where ws: "ws = w # ws'" using assms(1) by (cases ws) auto
  then have "isspace w" "list_all isspace ws'" using assms(2) by simp_all
  then show ?case using ws by (simp add: dropWhile_all)
next
  case (2 c cs)
  show ?case
  proof (cases "isspace c")
    case False
    then show ?thesis using 2(2) by simp
  next
    case True
    show ?thesis
    proof (cases "list_all isspace cs")
      case all: True
      have "dropWhile isspace (cs @ ws @ y) = dropWhile isspace y"
        using all assms(2) by (simp add: dropWhile_all)
      moreover have "dropWhile isspace (cs @ '' '' @ y) = dropWhile isspace y"
        using all by (simp add: dropWhile_all)
      ultimately show ?thesis using True by simp
    next
      case nall: False
      have "dropWhile isspace (cs @ ws @ y) = dropWhile isspace cs @ ws @ y"
        using nall by (rule dropWhile_not_all)
      moreover have "dropWhile isspace (cs @ '' '' @ y) = dropWhile isspace cs @ '' '' @ y"
        using nall by (rule dropWhile_not_all)
      ultimately show ?thesis using True 2(1) by simp
    qed
  qed
qed

lemma normalize_run:
  assumes "ws \<noteq> []" "list_all isspace ws"
  shows "sub_spaces (strip (a @ ws @ b)) = sub_spaces (strip (a @ '' '' @ b))"
proof -
  have sp: "list_all isspace '' ''" by simp
  show ?thesis
  proof (cases "list_all isspace a")
    case True
    have "strip (a @ ws @ b) = strip b"
      using True assms(2) by (simp add: strip_space_left)
    moreover have "strip (a @ '' '' @ b) = strip b"
      using True strip_space_left [OF sp, of b] by (simp add: strip_space_left)
    ultimately show ?thesis by simp
  next
    case a: False
    show ?thesis
    proof (cases "list_all isspace b")
      case True
      have "strip ((a @ ws) @ b) = strip a"
        using True assms(2) by (simp add: strip_space_right)
      moreover have "strip ((a @ '' '') @ b) = strip a"
        using True strip_space_right [OF sp, of a] by (simp add: strip_space_right)
      ultimately show ?thesis by simp
    next
      case False
      then show ?thesis
        using a strip_middle [of a b ws] strip_middle [of a b "'' ''"] sub_spaces_run [OF assms]
        by simp
    qed
  qed
qed

section \<open>Claims about the tokenizer\<close>

text \<open>
  Claim C3, as stated: empty input gives zero tokens, input of only spaces gives only
  separator tokens, and leading and trailing spaces are kept as tokens, not trimmed.
  The last part fails: \<open>request_line.strip()\<close> trims before the loop runs, so the line
  \<open>" A "\<close> gives the one token \<open>"A"\<close> and no space token.
\<close>

theorem tokenize_request_trims_counterexample:
  "tokenize_request '' A '' = [''A'']"
  by (simp add: tokenize_request_def strip_def isspace_def)

text \<open>
  Claim C3, amended: empty input gives zero tokens; input that is only whitespace gives
  zero tokens as well (so no token of it is anything but a separator); whitespace at the
  two ends of the input is trimmed before tokenizing, so a line tokenizes as the same line
  without it.
\<close>

theorem tokenize_request_edge_cases:
  "tokenize_request [] = []
   \<and> (list_all isspace w \<longrightarrow> tokenize_request w = [])
   \<and> (list_all isspace l \<and> list_all isspace r \<longrightarrow>
        tokenize_request (l @ s @ r) = tokenize_request s)"
proof (intro conjI impI)
  show "tokenize_request [] = []"
    by (simp add: tokenize_request_def strip_def)
next
  assume "list_all isspace w"
  then show "tokenize_request w = []"
    by (simp add: tokenize_request_def strip_all_space)
next
  assume "list_all isspace l \<and> list_all isspace r"
  then show "tokenize_request (l @ s @ r) = tokenize_request s"
    by (simp add: tokenize_request_def strip_pad)
qed

theorem tokenize_request_edge_cases_witness:
  "list_all isspace ''   '' \<and> tokenize_request ''   '' = []
   \<and> list_all isspace (CHR '' '' # [CHR 0x09]) \<and> list_all isspace '' ''
   \<and> tokenize_request ((CHR '' '' # [CHR 0x09]) @ ''GET /'' @ '' '') = [''GET'', '' '', ''/'']
   \<and> tokenize_request ''GET /'' = [''GET'', '' '', ''/'']"
  using tokenize_request_edge_cases [of "''   ''" "CHR '' '' # [CHR 0x09]" "'' ''" "''GET /''"]
  by (simp add: tokenize_request_def strip_def isspace_def)

text \<open>
  Claim C6: a run of whitespace inside the line tokenizes as a single space does:
  \<open>"GET  /x"\<close> with two spaces gives the tokens of \<open>"GET /x"\<close>. The theorem covers every
  non-empty run \<open>ws\<close> of whitespace characters at every place of the line.
\<close>

theorem tokenize_request_collapses_runs:
  "ws \<noteq> [] \<Longrightarrow> list_all isspace ws \<Longrightarrow>
     tokenize_request (a @ ws @ b) = tokenize_request (a @ '' '' @ b)"
  by (simp add: tokenize_request_def normalize_run)

theorem tokenize_request_collapses_runs_witness:
  "''  '' \<noteq> [] \<and> list_all isspace ''  ''
   \<and> tokenize_request (''GET'' @ ''  '' @ ''/x'') = tokenize_request (''GET'' @ '' '' @ ''/x'')
   \<and> tokenize_request (''GET'' @ '' '' @ ''/x'') = [''GET'', '' '', ''/x'']"
proof -
  have h1: "''  '' \<noteq> []" by simp
  have h2: "list_all isspace ''  ''" by simp
  have "tokenize_request (''GET'' @ '' '' @ ''/x'') = [''GET'', '' '', ''/x'']"
    by (simp add: tokenize_request_def strip_def isspace_def)
  then show ?thesis
    using h1 h2 tokenize_request_collapses_runs [OF h1 h2, of "''GET''" "''/x''"] by simp
qed

text \<open>
  Claim C9: every token is the single space or a non-empty string without a space, no two
  consecutive tokens are both the space, and the tokens concatenated are the stripped,
  whitespace-normalised input.
\<close>

theorem tokenize_request_tokens:
  "(\<forall>t \<in> set (tokenize_request s). t = '' '' \<or> (t \<noteq> [] \<and> CHR '' '' \<notin> set t))
   \<and> \<not> adjacent '' '' (tokenize_request s)
   \<and> concat (tokenize_request s) = sub_spaces (strip s)"
proof (intro conjI ballI)
  fix t
  assume "t \<in> set (tokenize_request s)"
  then show "t = '' '' \<or> (t \<noteq> [] \<and> CHR '' '' \<notin> set t)"
    using tokenize_loop_tokens [of "[]" t "sub_spaces (strip s)" "[]"]
    by (simp add: tokenize_request_def)
next
  show "\<not> adjacent '' '' (tokenize_request s)"
    using tokenize_loop_adjacent [of "[]" "sub_spaces (strip s)"] sub_spaces_no_adjacent
    by (auto simp: tokenize_request_def)
next
  show "concat (tokenize_request s) = sub_spaces (strip s)"
    by (simp add: tokenize_request_def tokenize_loop_concat)
qed

theorem tokenize_request_tokens_witness:
  "tokenize_request ''  GET   /x '' = [''GET'', '' '', ''/x'']
   \<and> list_all (\<lambda>t. t = '' '' \<or> (t \<noteq> [] \<and> CHR '' '' \<notin> set t)) (tokenize_request ''  GET   /x '')
   \<and> \<not> adjacent '' '' (tokenize_request ''  GET   /x '')
   \<and> concat (tokenize_request ''  GET   /x '') = ''GET /x''"
proof -
  have e: "tokenize_request ''  GET   /x '' = [''GET'', '' '', ''/x'']"
    by (simp add: tokenize_request_def strip_def isspace_def)
  have n: "sub_spaces (strip ''  GET   /x '') = ''GET /x''"
    by (simp add: strip_def isspace_def)
  show ?thesis
    using tokenize_request_tokens [of "''  GET   /x ''"] e n by (simp add: list_all_iff)
qed

section \<open>Properties of the chart and of the builder\<close>

lemma consecutive_le: "consecutive i sp j \<Longrightarrow> i \<le> j"
proof (induction sp arbitrary: i)
  case Nil
  then show ?case by simp
next
  case (Cons x r)
  obtain c d where x: "x = (c, d)" by (cases x)
  have "i \<le> d" "consecutive d r j" using Cons.prems x by simp_all
  then show ?case using Cons.IH [of d] by simp
qed

lemma consecutive_bounds:
  "consecutive i sp j \<Longrightarrow> (a, b) \<in> set sp \<Longrightarrow> i \<le> a \<and> a \<le> b \<and> b \<le> j"
proof (induction sp arbitrary: i)
  case Nil
  then show ?case by simp
next
  case (Cons x r)
  obtain c d where x: "x = (c, d)" by (cases x)
  have c: "c = i" "c \<le> d" "consecutive d r j" using Cons.prems(1) x by simp_all
  show ?case
  proof (cases "(a, b) = (c, d)")
    case True
    then show ?thesis using c consecutive_le [OF c(3)] by simp
  next
    case False
    then have "(a, b) \<in> set r" using Cons.prems(2) x by auto
    then have "d \<le> a \<and> a \<le> b \<and> b \<le> j" using Cons.IH [OF c(3)] by simp
    then show ?thesis using c by simp
  qed
qed

lemma sub_spans_Suc:
  "sp \<in> set (sub_spans (Suc m) i j) \<longleftrightarrow>
     (\<exists>k r. i \<le> k \<and> k \<le> j \<and> r \<in> set (sub_spans m k j) \<and> sp = (i, k) # r)"
proof -
  have "set [i ..< Suc j] = {k. i \<le> k \<and> k \<le> j}" by auto
  then have "sp \<in> set (sub_spans (Suc m) i j) \<longleftrightarrow>
      (\<exists>k \<in> {k. i \<le> k \<and> k \<le> j}. sp \<in> (#) (i, k) ` set (sub_spans m k j))"
    by (simp del: upt_Suc)
  then show ?thesis by blast
qed

lemma sub_spans_iff:
  "sp \<in> set (sub_spans m i j) \<longleftrightarrow> length sp = m \<and> consecutive i sp j"
proof (induction m arbitrary: i sp)
  case 0
  then show ?case by auto
next
  case (Suc m)
  show ?case
  proof
    assume "sp \<in> set (sub_spans (Suc m) i j)"
    then obtain k r where k: "i \<le> k" "k \<le> j" and r: "r \<in> set (sub_spans m k j)"
      and sp: "sp = (i, k) # r"
      unfolding sub_spans_Suc by blast
    then show "length sp = Suc m \<and> consecutive i sp j" using Suc.IH [of r k] by simp
  next
    assume a: "length sp = Suc m \<and> consecutive i sp j"
    then obtain x r where sp: "sp = x # r" by (cases sp) auto
    obtain c d where x: "x = (c, d)" by (cases x)
    have c: "c = i" "i \<le> d" "consecutive d r j" "length r = m" using a sp x by simp_all
    have "r \<in> set (sub_spans m d j)" using Suc.IH [of r d] c by simp
    moreover have "d \<le> j" using consecutive_le [OF c(3)] .
    ultimately show "sp \<in> set (sub_spans (Suc m) i j)"
      unfolding sub_spans_Suc using sp x c by blast
  qed
qed

lemma slice_append:
  "i \<le> k \<Longrightarrow> k \<le> j \<Longrightarrow> slice xs i k @ slice xs k j = slice xs i j"
proof -
  assume a: "i \<le> k" "k \<le> j"
  have "take (j - i) (drop i xs) = take ((k - i) + (j - k)) (drop i xs)" using a by simp
  also have "\<dots> = take (k - i) (drop i xs) @ take (j - k) (drop (k - i) (drop i xs))"
    by (rule take_add)
  also have "drop (k - i) (drop i xs) = drop k xs" using a by simp
  finally show ?thesis by (simp add: slice_def)
qed

lemma consecutive_concat:
  "consecutive i sp j \<Longrightarrow> concat (map (\<lambda>(a, b). slice xs a b) sp) = slice xs i j"
proof (induction sp arbitrary: i)
  case Nil
  then show ?case by (simp add: slice_def)
next
  case (Cons x r)
  obtain c d where x: "x = (c, d)" by (cases x)
  have c: "c = i" "i \<le> d" "consecutive d r j" using Cons.prems x by simp_all
  have "concat (map (\<lambda>(a, b). slice xs a b) r) = slice xs d j" using Cons.IH [OF c(3)] .
  then show ?case using x c slice_append [of i d j xs] consecutive_le [OF c(3)] by simp
qed

lemma length_offsets [simp]: "length (offsets i ws) = length ws"
  by (induction ws arbitrary: i) simp_all

lemma consecutive_offsets: "consecutive i (offsets i ws) (i + length (concat ws))"
proof (induction ws arbitrary: i)
  case Nil
  show ?case by simp
next
  case (Cons w ws)
  show ?case using Cons [of "i + length w"] by (simp add: add.assoc)
qed

lemma slice_full [simp]: "slice xs 0 (length xs) = xs"
  by (simp add: slice_def)

lemma slice_one: "a < length xs \<Longrightarrow> slice xs a (Suc a) = [xs ! a]"
  by (simp add: slice_def take_Suc_conv_app_nth [of 0] hd_drop_conv_nth take_Suc)

lemma slice_split:
  assumes "slice xs i (i + length (u @ v)) = u @ v"
  shows "slice xs i (i + length u) = u \<and> slice xs (i + length u) (i + length u + length v) = v"
proof -
  have e: "take (length u + length v) (drop i xs) = u @ v" using assms by (simp add: slice_def)
  have "take (length u + length v) (drop i xs)
      = take (length u) (drop i xs) @ take (length v) (drop (length u) (drop i xs))"
    by (rule take_add)
  then have a: "take (length u) (drop i xs) @ take (length v) (drop (length u) (drop i xs)) = u @ v"
    using e by simp
  have "min (length u + length v) (length xs - i) = length u + length v"
    using arg_cong [OF e, of length] by simp
  then have "length (take (length u) (drop i xs)) = length u" by simp
  then have "take (length u) (drop i xs) = u \<and> take (length v) (drop (length u) (drop i xs)) = v"
    using a by (simp add: append_eq_append_conv)
  then show ?thesis by (simp add: slice_def add.commute)
qed

lemma in_concat_map_triples:
  "z \<in> set (concat (map (\<lambda>(N, body). map (\<lambda>sp. (N, body, sp)) (g N body)) ps)) \<longleftrightarrow>
     (\<exists>N body sp. (N, body) \<in> set ps \<and> sp \<in> set (g N body) \<and> z = (N, body, sp))"
  by (induction ps) auto

lemma justified_iff:
  "(N, body, sp) \<in> set (justified G toks C i j) \<longleftrightarrow>
     (N, body) \<in> set (productions G) \<and> length sp = length body \<and> consecutive i sp j
     \<and> list_all (proven toks C) (zip body sp)"
  unfolding justified_def in_concat_map_triples by (auto simp: sub_spans_iff)

lemma spans_iff: "(i, j) \<in> set (spans n) \<longleftrightarrow> i \<le> j \<and> j \<le> n"
proof -
  have "(i, j) \<in> set (spans n) \<longleftrightarrow> (\<exists>k \<in> set [0 ..< Suc n]. (i, j) \<in> Pair k ` set [k ..< Suc n])"
    unfolding spans_def by (simp del: upt_Suc)
  also have "\<dots> \<longleftrightarrow> i \<in> set [0 ..< Suc n] \<and> j \<in> set [i ..< Suc n]" by blast
  also have "\<dots> \<longleftrightarrow> i \<le> j \<and> j \<le> n" by auto
  finally show ?thesis .
qed

lemma in_concat_map_items:
  "z \<in> set (concat (map (\<lambda>(i, j). map (\<lambda>(N, body, sp). (N, i, j)) (g i j)) ss)) \<longleftrightarrow>
     (\<exists>i j N body sp. (i, j) \<in> set ss \<and> (N, body, sp) \<in> set (g i j) \<and> z = (N, i, j))"
  by (induction ss) (auto, force+)

lemma step_iff:
  "(N, i, j) \<in> set (step G toks C) \<longleftrightarrow>
     i \<le> j \<and> j \<le> length toks \<and> (\<exists>body sp. (N, body, sp) \<in> set (justified G toks C i j))"
  unfolding step_def in_concat_map_items by (auto simp: spans_iff)

lemma finite_items: "finite (items G toks)"
  by (simp add: items_def)

lemma card_items: "card (items G toks) \<le> length (productions G) * length (spans (length toks))"
proof -
  have "card (items G toks) = card (fst ` set (productions G)) * card (set (spans (length toks)))"
    by (simp add: items_def card_cartesian_product)
  also have "\<dots> \<le> length (productions G) * length (spans (length toks))"
    by (intro mult_le_mono) (metis card_image_le card_length le_trans List.finite_set, rule card_length)
  finally show ?thesis .
qed

lemma step_items: "set (step G toks C) \<subseteq> items G toks"
proof
  fix x assume x: "x \<in> set (step G toks C)"
  obtain N i j where n: "x = (N, i, j)" by (cases x)
  then obtain body sp where "i \<le> j" "j \<le> length toks" "(N, body, sp) \<in> set (justified G toks C i j)"
    using x step_iff by blast
  then have "(N, body) \<in> set (productions G)" "(i, j) \<in> set (spans (length toks))"
    by (simp_all add: justified_iff spans_iff)
  then show "x \<in> items G toks" using n by (force simp: items_def)
qed

lemma fill_closed:
  "set C \<subseteq> items G toks \<Longrightarrow> card (items G toks - set C) \<le> k
     \<Longrightarrow> set (step G toks (fill k G toks C)) \<subseteq> set (fill k G toks C)"
proof (induction k arbitrary: C)
  case 0
  then have "items G toks - set C = {}" using finite_items [of G toks] by simp
  then have "items G toks \<subseteq> set C" by blast
  then show ?case using step_items [of G toks C] by simp
next
  case (Suc k)
  define new where "new = filter (\<lambda>x. x \<notin> set C) (remdups (step G toks C))"
  show ?case
  proof (cases "new = []")
    case True
    then have "set (step G toks C) \<subseteq> set C"
      unfolding new_def by (auto simp: filter_empty_conv)
    then show ?thesis using True by (simp add: new_def [symmetric] Let_def)
  next
    case False
    then obtain x where x: "x \<in> set new" by (cases new) auto
    then have xs: "x \<in> set (step G toks C)" "x \<notin> set C" by (simp_all add: new_def)
    have sub: "set (C @ new) \<subseteq> items G toks"
      using Suc.prems(1) step_items [of G toks C] by (auto simp: new_def)
    have "items G toks - set (C @ new) \<subset> items G toks - set C"
      using x xs step_items [of G toks C] by auto
    then have "card (items G toks - set (C @ new)) < card (items G toks - set C)"
      by (intro psubset_card_mono) (simp_all add: finite_items)
    then have "card (items G toks - set (C @ new)) \<le> k" using Suc.prems(2) by simp
    then have "set (step G toks (fill k G toks (C @ new))) \<subseteq> set (fill k G toks (C @ new))"
      using Suc.IH [OF sub] by simp
    then show ?thesis using False by (simp add: new_def [symmetric] Let_def)
  qed
qed

lemma chart_closed: "set (step G toks (chart G toks)) \<subseteq> set (chart G toks)"
  unfolding chart_def using fill_closed [of "[]" G toks] card_items [of G toks] by simp

lemma proven_derives:
  assumes "sound G toks C" and "proven toks C (X, a, b)"
  shows "derives G X (slice toks a b)"
proof (cases X)
  case (Terminal tm)
  then have "b = Suc a" "a < length toks" "terminal_matches tm (toks ! a)"
    using assms(2) by (simp_all add: token_matches_def)
  then show ?thesis using Terminal derives.terminal [of tm "toks ! a" G] by (simp add: slice_one)
next
  case (NonTerminal A)
  then show ?thesis using assms by (simp add: sound_def)
qed

lemma justified_derives:
  assumes "sound G toks C" and "(N, body, sp) \<in> set (justified G toks C i j)"
  shows "derives G (NonTerminal N) (slice toks i j)"
proof -
  have j: "(N, body) \<in> set (productions G)" "length sp = length body" "consecutive i sp j"
    "list_all (proven toks C) (zip body sp)"
    using assms(2) by (simp_all add: justified_iff)
  have "\<forall>(X, s) \<in> set (zip body sp). derives G X (slice toks (fst s) (snd s))"
    using j(4) proven_derives [OF assms(1)] by (auto simp: list_all_iff)
  then have "list_all2 (\<lambda>X s. derives G X (slice toks (fst s) (snd s))) body sp"
    using j(2) by (simp add: list_all2_iff)
  then have "list_all2 (derives G) body (map (\<lambda>(a, b). slice toks a b) sp)"
    by (simp add: list_all2_map2 case_prod_unfold)
  then have "derives G (NonTerminal N) (concat (map (\<lambda>(a, b). slice toks a b) sp))"
    using derives.production [OF j(1)] by simp
  then show ?thesis unfolding consecutive_concat [OF j(3)] .
qed

lemma step_sound: "sound G toks C \<Longrightarrow> sound G toks (step G toks C)"
  unfolding sound_def [of G toks "step G toks C"]
  using justified_derives [of G toks C] by (auto simp: step_iff)

lemma fill_sound: "sound G toks C \<Longrightarrow> sound G toks (fill k G toks C)"
proof (induction k arbitrary: C)
  case 0
  then show ?case by simp
next
  case (Suc k)
  define new where "new = filter (\<lambda>x. x \<notin> set C) (remdups (step G toks C))"
  have "sound G toks (C @ new)"
    using Suc.prems step_sound [OF Suc.prems] by (auto simp: sound_def new_def)
  then show ?case using Suc.IH [of "C @ new"] Suc.prems by (simp add: new_def [symmetric] Let_def)
qed

lemma chart_sound: "sound G toks (chart G toks)"
  unfolding chart_def by (rule fill_sound) (simp add: sound_def)

lemma offsets_proven:
  assumes "list_all2 (\<lambda>X w. \<forall>i. i + length w \<le> n \<longrightarrow> slice toks i (i + length w) = w
      \<longrightarrow> proven toks C (X, i, i + length w)) body ws"
    and "i + length (concat ws) \<le> n" and "slice toks i (i + length (concat ws)) = concat ws"
  shows "list_all (proven toks C) (zip body (offsets i ws))"
  using assms
proof (induction body ws arbitrary: i rule: list_all2_induct)
  case Nil
  then show ?case by simp
next
  case (Cons X body w ws)
  have s: "slice toks i (i + length w) = w
      \<and> slice toks (i + length w) (i + length w + length (concat ws)) = concat ws"
    using slice_split [of toks i w "concat ws"] Cons.prems(2) by simp
  have "proven toks C (X, i, i + length w)" using Cons.hyps(1) Cons.prems(1) s by simp
  moreover have "list_all (proven toks C) (zip body (offsets (i + length w) ws))"
    using Cons.IH [of "i + length w"] Cons.prems(1) s by (simp add: add.assoc)
  ultimately show ?case by simp
qed

lemma chart_complete:
  assumes "derives G X w"
  shows "i + length w \<le> length toks \<Longrightarrow> slice toks i (i + length w) = w
     \<Longrightarrow> proven toks (chart G toks) (X, i, i + length w)"
  using assms
proof (induction arbitrary: i rule: derives.induct)
  case (terminal tm tok)
  then have "toks ! i = tok" using slice_one [of i toks] by simp
  then show ?case using terminal by (simp add: token_matches_def)
next
  case (production N body ws)
  have a: "list_all2 (\<lambda>X w. \<forall>i. i + length w \<le> length toks \<longrightarrow> slice toks i (i + length w) = w
      \<longrightarrow> proven toks (chart G toks) (X, i, i + length w)) body ws"
    using production(2) by (rule list_all2_mono) simp
  have p: "list_all (proven toks (chart G toks)) (zip body (offsets i ws))"
    using offsets_proven [OF a production(3) production(4)] .
  have "length body = length ws" using production(2) by (rule list_all2_lengthD)
  then have "(N, body, offsets i ws) \<in> set (justified G toks (chart G toks) i (i + length (concat ws)))"
    using production(1) p consecutive_offsets [of i ws] by (simp add: justified_iff)
  then have "(N, i, i + length (concat ws)) \<in> set (step G toks (chart G toks))"
    using production(3) by (auto simp: step_iff)
  then show ?case using chart_closed [of G toks] by auto
qed

lemma recorded_iff:
  "recorded G toks N i j \<longleftrightarrow>
     i \<le> j \<and> j \<le> length toks \<and> derives G (NonTerminal N) (slice toks i j)"
proof
  assume "recorded G toks N i j"
  then show "i \<le> j \<and> j \<le> length toks \<and> derives G (NonTerminal N) (slice toks i j)"
    using chart_sound [of G toks] by (simp add: recorded_def sound_def)
next
  assume a: "i \<le> j \<and> j \<le> length toks \<and> derives G (NonTerminal N) (slice toks i j)"
  have l: "length (slice toks i j) = j - i" using a by (auto simp: slice_def)
  have "proven toks (chart G toks) (NonTerminal N, i, i + length (slice toks i j))"
    using a l by (intro chart_complete) simp_all
  then show "recorded G toks N i j" using a l by (simp add: recorded_def)
qed

lemma recognize_iff: "recognize G toks \<longleftrightarrow> derives G (NonTerminal (start G)) toks"
  by (simp add: recognize_def recorded_iff)

lemma size_child: "c \<in> set cs \<Longrightarrow> size c < Suc (size_list size cs)"
  by (induction cs) auto

lemma derivation_NT:
  "derivation G toks (NonTerminal N) t \<longleftrightarrow>
     label t = N \<and> snd (span t) \<le> length toks
     \<and> (\<exists>body. (N, body) \<in> set (productions G)
           \<and> consecutive (fst (span t)) (map span (children t)) (snd (span t))
           \<and> list_all2 (derivation G toks) body (children t))"
proof -
  obtain l i j cs where t: "t = Tree l (i, j) cs" by (cases t) auto
  have "list_ex (\<lambda>(h, body). h = N \<and> length body = length cs
             \<and> consecutive i (map span cs) j
             \<and> list_all (\<lambda>(X, c). derivation G toks X c) (zip body cs)) (productions G)
      \<longleftrightarrow> (\<exists>body. (N, body) \<in> set (productions G) \<and> consecutive i (map span cs) j
             \<and> list_all2 (derivation G toks) body cs)"
    by (auto simp: list_ex_iff list_all2_iff list_all_iff)
  then show ?thesis using t by (simp add: derivation.simps(2))
qed

lemma derivation_T:
  "derivation G toks (Terminal tm) t \<longleftrightarrow>
     (\<exists>a. a < length toks \<and> terminal_matches tm (toks ! a) \<and> t = Tree (toks ! a) (a, Suc a) [])"
proof -
  obtain l i j cs where t: "t = Tree l (i, j) cs" by (cases t) auto
  show ?thesis using t by (auto simp: token_matches_def)
qed

lemma derivation_T_leaf: "derivation G toks (Terminal tm) t \<Longrightarrow> is_leaf t"
  by (auto simp: is_leaf_def token_matches_def)

lemma derivation_NT_not_leaf: "derivation G toks (NonTerminal N) t \<Longrightarrow> \<not> is_leaf t"
proof
  assume d: "derivation G toks (NonTerminal N) t" and l: "is_leaf t"
  then have "consecutive (fst (span t)) [] (snd (span t))"
    by (auto simp: derivation_NT is_leaf_def)
  then show False using l by (simp add: is_leaf_def)
qed

lemma derivation_not_leaf:
  "derivation G toks X t \<Longrightarrow> \<not> is_leaf t \<Longrightarrow> X = NonTerminal (label t)"
  by (cases X) (auto simp: derivation_T_leaf derivation_NT)

lemma derivation_derives:
  "derivation G toks X t \<Longrightarrow>
     fst (span t) \<le> snd (span t) \<and> snd (span t) \<le> length toks
     \<and> derives G X (slice toks (fst (span t)) (snd (span t)))"
proof (induction t arbitrary: X)
  case (Tree l sp cs)
  show ?case
  proof (cases X)
    case (Terminal tm)
    then obtain a where a: "a < length toks" "terminal_matches tm (toks ! a)"
      "Tree l sp cs = Tree (toks ! a) (a, Suc a) []"
      using Tree.prems derivation_T by blast
    then show ?thesis
      using Terminal derives.terminal [of tm "toks ! a" G] by (simp add: slice_one)
  next
    case (NonTerminal N)
    then obtain body where b: "(N, body) \<in> set (productions G)"
      "consecutive (fst sp) (map span cs) (snd sp)" "list_all2 (derivation G toks) body cs"
      "snd sp \<le> length toks"
      using Tree.prems by (auto simp: derivation_NT)
    have "list_all2 (\<lambda>X c. derives G X (slice toks (fst (span c)) (snd (span c)))) body cs"
    proof (rule list.rel_mono_strong [OF b(3)])
      fix Y c assume "Y \<in> set body" "c \<in> set cs" "derivation G toks Y c"
      then show "derives G Y (slice toks (fst (span c)) (snd (span c)))"
        using Tree.IH by blast
    qed
    then have "list_all2 (derives G) body (map (\<lambda>c. slice toks (fst (span c)) (snd (span c))) cs)"
      by (simp add: list_all2_map2)
    then have "derives G (NonTerminal N)
        (concat (map (\<lambda>c. slice toks (fst (span c)) (snd (span c))) cs))"
      using derives.production [OF b(1)] by simp
    moreover have "concat (map (\<lambda>c. slice toks (fst (span c)) (snd (span c))) cs)
        = concat (map (\<lambda>(a, b). slice toks a b) (map span cs))"
      by (simp add: case_prod_unfold comp_def)
    ultimately have "derives G (NonTerminal N) (slice toks (fst sp) (snd sp))"
      using consecutive_concat [OF b(2), of toks] by simp
    then show ?thesis using NonTerminal b(4) consecutive_le [OF b(2)] by simp
  qed
qed

lemma offsets_trees:
  assumes "list_all2 (\<lambda>X w. \<forall>i. i + length w \<le> n \<longrightarrow> slice toks i (i + length w) = w
      \<longrightarrow> (\<exists>t. derivation G toks X t \<and> span t = (i, i + length w))) body ws"
    and "i + length (concat ws) \<le> n" and "slice toks i (i + length (concat ws)) = concat ws"
  shows "\<exists>cs. list_all2 (derivation G toks) body cs \<and> map span cs = offsets i ws"
  using assms
proof (induction body ws arbitrary: i rule: list_all2_induct)
  case Nil
  then show ?case by simp
next
  case (Cons X body w ws)
  have s: "slice toks i (i + length w) = w
      \<and> slice toks (i + length w) (i + length w + length (concat ws)) = concat ws"
    using slice_split [of toks i w "concat ws"] Cons.prems(2) by simp
  have b1: "i + length w \<le> n" and b2: "i + length w + length (concat ws) \<le> n"
    using Cons.prems(1) by simp_all
  obtain t where t: "derivation G toks X t" "span t = (i, i + length w)"
    using Cons.hyps(1) b1 s by blast
  obtain cs where cs: "list_all2 (derivation G toks) body cs"
    "map span cs = offsets (i + length w) ws"
    using Cons.IH [OF b2] s by blast
  have "list_all2 (derivation G toks) (X # body) (t # cs) \<and> map span (t # cs) = offsets i (w # ws)"
    using t cs by simp
  then show ?case by blast
qed

lemma derives_derivation:
  assumes "derives G X w"
  shows "i + length w \<le> length toks \<Longrightarrow> slice toks i (i + length w) = w
     \<Longrightarrow> \<exists>t. derivation G toks X t \<and> span t = (i, i + length w)"
  using assms
proof (induction arbitrary: i rule: derives.induct)
  case (terminal tm tok)
  then have "toks ! i = tok" "i < length toks" using slice_one [of i toks] by simp_all
  then have "derivation G toks (Terminal tm) (Tree (toks ! i) (i, Suc i) [])"
    using terminal by (simp add: token_matches_def)
  then show ?case by (intro exI [of _ "Tree (toks ! i) (i, Suc i) []"]) simp
next
  case (production N body ws)
  have a: "list_all2 (\<lambda>X w. \<forall>i. i + length w \<le> length toks \<longrightarrow> slice toks i (i + length w) = w
      \<longrightarrow> (\<exists>t. derivation G toks X t \<and> span t = (i, i + length w))) body ws"
    using production(2) by (rule list_all2_mono) simp
  obtain cs where cs: "list_all2 (derivation G toks) body cs" "map span cs = offsets i ws"
    using offsets_trees [OF a production(3) production(4)] by blast
  have "derivation G toks (NonTerminal N) (Tree N (i, i + length (concat ws)) cs)"
    using production(1) production(3) cs consecutive_offsets [of i ws]
    by (auto simp: derivation_NT)
  then show ?case by (intro exI [of _ "Tree N (i, i + length (concat ws)) cs"]) simp
qed

lemma chart_is_complete: "complete G toks (chart G toks)"
  unfolding complete_def
proof (intro allI impI)
  fix A t assume "derivation G toks (NonTerminal A) t"
  then have "recorded G toks A (fst (span t)) (snd (span t))"
    using derivation_derives [of G toks "NonTerminal A" t] by (simp add: recorded_iff)
  then show "(A, fst (span t), snd (span t)) \<in> set (chart G toks)" by (simp add: recorded_def)
qed

lemma recorded_derivation:
  "recorded G toks N i j \<longleftrightarrow> (\<exists>t. derivation G toks (NonTerminal N) t \<and> span t = (i, j))"
proof
  assume r: "recorded G toks N i j"
  then have a: "i \<le> j" "j \<le> length toks" "derives G (NonTerminal N) (slice toks i j)"
    by (simp_all add: recorded_iff)
  have l: "length (slice toks i j) = j - i" using a by (auto simp: slice_def)
  have "\<exists>t. derivation G toks (NonTerminal N) t \<and> span t = (i, i + length (slice toks i j))"
    using a l by (intro derives_derivation) simp_all
  then show "\<exists>t. derivation G toks (NonTerminal N) t \<and> span t = (i, j)" using a l by simp
next
  assume "\<exists>t. derivation G toks (NonTerminal N) t \<and> span t = (i, j)"
  then obtain t where t: "derivation G toks (NonTerminal N) t" "span t = (i, j)" by blast
  have "(N, fst (span t), snd (span t)) \<in> set (chart G toks)"
    using chart_is_complete [of G toks] t(1) unfolding complete_def by blast
  then show "recorded G toks N i j" using t(2) by (simp add: recorded_def)
qed

lemma product_lists_Nil: "product_lists xss = [] \<longleftrightarrow> [] \<in> set xss"
  by (induction xss) auto

lemma expand_eq:
  "expand G toks C vis N i j =
     (if N \<in> set vis \<or> N \<notin> fst ` set (productions G) then []
      else concat (map (\<lambda>(h, body, sp).
        if h = N
        then map (Tree N (i, j)) (product_lists (map (piece_trees G toks C vis N i j) (zip body sp)))
        else [])
       (justified G toks C i j)))"
  unfolding piece_trees_def by (subst expand.simps) (rule refl)

lemma expand_set:
  "t \<in> set (expand G toks C vis N i j) \<longleftrightarrow>
     N \<notin> set vis \<and> N \<in> fst ` set (productions G)
     \<and> (\<exists>body sp cs. (N, body, sp) \<in> set (justified G toks C i j)
          \<and> list_all2 (\<lambda>c p. c \<in> set (piece_trees G toks C vis N i j p)) cs (zip body sp)
          \<and> t = Tree N (i, j) cs)"
proof (cases "N \<in> set vis \<or> N \<notin> fst ` set (productions G)")
  case True
  then show ?thesis by (auto simp: expand_eq)
next
  case False
  define pt where "pt = piece_trees G toks C vis N i j"
  define F where "F = (\<lambda>(h, body, sp).
        if h = N then map (Tree N (i, j)) (product_lists (map pt (zip body sp))) else [])"
  have "expand G toks C vis N i j = concat (map F (justified G toks C i j))"
    unfolding F_def pt_def using False by (simp add: expand_eq)
  then have "t \<in> set (expand G toks C vis N i j)
      \<longleftrightarrow> (\<exists>q \<in> set (justified G toks C i j). t \<in> set (F q))"
    by auto
  moreover have "t \<in> set (F (h, body, sp)) \<longleftrightarrow>
      h = N \<and> (\<exists>cs. list_all2 (\<lambda>c p. c \<in> set (pt p)) cs (zip body sp) \<and> t = Tree N (i, j) cs)"
    for h body sp
    unfolding F_def by (auto simp: product_lists_set list_all2_map2)
  ultimately have "t \<in> set (expand G toks C vis N i j) \<longleftrightarrow>
      (\<exists>h body sp. (h, body, sp) \<in> set (justified G toks C i j) \<and> h = N \<and>
          (\<exists>cs. list_all2 (\<lambda>c p. c \<in> set (pt p)) cs (zip body sp) \<and> t = Tree N (i, j) cs))"
    by (metis prod.collapse)
  then show ?thesis unfolding pt_def using False by blast
qed




lemma chain_self: "t \<in> set (chain t)"
  by (cases t) simp

lemma chain_iff:
  "w \<in> set (chain t) \<longleftrightarrow>
     w = t \<or> (\<exists>c \<in> set (children t). \<not> is_leaf c \<and> span c = span t \<and> w \<in> set (chain c))"
  by (cases t) auto

lemma chain_subtree:
  "w \<in> set (chain t) \<Longrightarrow> derivation G toks (NonTerminal (label t)) t
     \<Longrightarrow> derivation G toks (NonTerminal (label w)) w \<and> span w = span t \<and> size w \<le> size t
          \<and> set (chain w) \<subseteq> set (chain t)"
proof (induction t arbitrary: w)
  case (Tree l s cs)
  show ?case
  proof (cases "w = Tree l s cs")
    case True
    then show ?thesis using Tree.prems(2) by simp
  next
    case False
    then obtain c where c: "c \<in> set cs" "\<not> is_leaf c" "span c = s" "w \<in> set (chain c)"
      using Tree.prems(1) by auto
    obtain body where "list_all2 (derivation G toks) body cs"
      using Tree.prems(2) by (auto simp: derivation_NT)
    then obtain X where "derivation G toks X c"
      using c(1) by (metis in_set_conv_nth list_all2_conv_all_nth)
    then have "derivation G toks (NonTerminal (label c)) c"
      using derivation_not_leaf c(2) by blast
    then have "derivation G toks (NonTerminal (label w)) w \<and> span w = span c \<and> size w \<le> size c
        \<and> set (chain w) \<subseteq> set (chain c)"
      using Tree.IH [OF c(1) c(4)] by simp
    moreover have "size c < size (Tree l s cs)" using size_child [OF c(1)] by simp
    moreover have "set (chain c) \<subseteq> set (chain (Tree l s cs))" using c by auto
    ultimately show ?thesis using c(3) by auto
  qed
qed

lemma expand_nonempty:
  assumes "complete G toks C"
  shows "derivation G toks (NonTerminal N) t \<Longrightarrow> span t = (i, j)
     \<Longrightarrow> \<forall>w \<in> set (chain t). label w \<notin> set vis
     \<Longrightarrow> expand G toks C vis N i j \<noteq> []"
proof (induction "j - i" arbitrary: i j N t vis rule: less_induct)
  case less
  note outer = less.hyps
  show ?case using less.prems
  proof (induction "card (fst ` set (productions G) - set vis)" arbitrary: vis N t rule: less_induct)
    case less
    note middle = less.hyps
    show ?case using less.prems
    proof (induction "size t" arbitrary: t rule: less_induct)
      case less
      note inner = less.hyps
      note d = less.prems(1) and sp = less.prems(2) and av = less.prems(3)
      let ?pt = "piece_trees G toks C vis N i j"
      have lab: "label t = N" using d by (simp add: derivation_NT)
      obtain body where p: "(N, body) \<in> set (productions G)"
        and con: "consecutive i (map span (children t)) j"
        and d2: "list_all2 (derivation G toks) body (children t)"
        using d sp by (auto simp: derivation_NT)
      have nv: "N \<notin> set vis" using av chain_self [of t] lab by auto
      have hd: "N \<in> fst ` set (productions G)" using p by force
      have lcs: "length body = length (children t)" using d2 by (rule list_all2_lengthD)
      show ?case
      proof (cases "\<exists>c \<in> set (children t). \<not> is_leaf c \<and> span c = (i, j)
          \<and> (\<exists>w \<in> set (chain c). label w = N)")
        case True
        then obtain c w where c: "c \<in> set (children t)" "\<not> is_leaf c" "span c = (i, j)"
          and w: "w \<in> set (chain c)" "label w = N"
          by blast
        have wt: "w \<in> set (chain t)" using c w sp chain_iff [of w t] by auto
        have wp: "derivation G toks (NonTerminal (label w)) w \<and> span w = span t \<and> size w \<le> size t
            \<and> set (chain w) \<subseteq> set (chain t)"
          using chain_subtree [OF wt] d lab by simp
        obtain X where "derivation G toks X c"
          using d2 c(1) by (metis in_set_conv_nth list_all2_conv_all_nth)
        then have "derivation G toks (NonTerminal (label c)) c"
          using derivation_not_leaf c(2) by blast
        then have "size w \<le> size c" using chain_subtree [OF w(1)] by simp
        moreover have "size c < size t" using size_child [OF c(1)] by (cases t) simp
        ultimately have "size w < size t" by simp
        then show ?thesis using inner [of w] wp w(2) sp av by auto
      next
        case False
        have each: "proven toks C (body ! r, span (children t ! r))
            \<and> ?pt (body ! r, span (children t ! r)) \<noteq> []"
          if r: "r < length (children t)" for r
        proof -
          define c where "c = children t ! r"
          obtain a b where ab: "span c = (a, b)" by (cases "span c")
          have mem: "c \<in> set (children t)" using r c_def by simp
          have dr: "derivation G toks (body ! r) c"
            using d2 r c_def by (simp add: list_all2_conv_all_nth)
          have "(a, b) \<in> set (map span (children t))" using ab mem by force
          then have bd: "i \<le> a" "a \<le> b" "b \<le> j" using consecutive_bounds [OF con] by simp_all
          show ?thesis
          proof (cases "body ! r")
            case (Terminal tm)
            have "derivation G toks (Terminal tm) c" using dr unfolding Terminal .
            then obtain k where "k < length toks" "terminal_matches tm (toks ! k)"
              "c = Tree (toks ! k) (k, Suc k) []"
              unfolding derivation_T by blast
            then show ?thesis
              using Terminal ab c_def by (auto simp: piece_trees_def token_matches_def)
          next
            case (NonTerminal A)
            have dA: "derivation G toks (NonTerminal A) c" using dr unfolding NonTerminal .
            have nl: "\<not> is_leaf c" using dA by (rule derivation_NT_not_leaf)
            have "(A, fst (span c), snd (span c)) \<in> set C"
              using assms dA unfolding complete_def by blast
            then have pr: "proven toks C (body ! r, span c)" using NonTerminal ab by simp
            show ?thesis
            proof (cases "b - a < j - i")
              case True
              have "expand G toks C [] A a b \<noteq> []"
                using outer [OF True, of A c "[]"] dA ab by simp
              then show ?thesis
                using pr NonTerminal ab True c_def by (simp add: piece_trees_def)
            next
              case F: False
              then have e: "span c = (i, j)" using bd ab by auto
              have "\<forall>w \<in> set (chain c). label w \<noteq> N" using False mem nl e by blast
              moreover have "\<forall>w \<in> set (chain c). label w \<notin> set vis"
                using av mem nl e sp chain_iff [of _ t] by auto
              ultimately have av': "\<forall>w \<in> set (chain c). label w \<notin> set (N # vis)" by simp
              have "fst ` set (productions G) - set (N # vis)
                  \<subset> fst ` set (productions G) - set vis"
                using nv hd by auto
              then have "card (fst ` set (productions G) - set (N # vis))
                  < card (fst ` set (productions G) - set vis)"
                by (intro psubset_card_mono) auto
              then have "expand G toks C (N # vis) A i j \<noteq> []"
                using middle [of "N # vis" A c] dA e av' by simp
              then show ?thesis
                using pr NonTerminal ab F c_def by (simp add: piece_trees_def)
            qed
          qed
        qed
        have z: "zip body (map span (children t)) ! r = (body ! r, span (children t ! r))"
          if "r < length (children t)" for r
          using that lcs by simp
        have "list_all (proven toks C) (zip body (map span (children t)))"
          using each lcs z by (simp add: list_all_length)
        then have js: "(N, body, map span (children t)) \<in> set (justified G toks C i j)"
          using p con lcs by (simp add: justified_iff)
        have "\<forall>q \<in> set (zip body (map span (children t))). ?pt q \<noteq> []"
        proof
          fix q assume "q \<in> set (zip body (map span (children t)))"
          then obtain r where r: "r < length (zip body (map span (children t)))"
            "q = zip body (map span (children t)) ! r"
            by (metis in_set_conv_nth)
          then have "r < length (children t)" using lcs by simp
          then show "?pt q \<noteq> []" using each [of r] z [of r] r(2) by simp
        qed
        then have "[] \<notin> set (map ?pt (zip body (map span (children t))))" by auto
        then have "product_lists (map ?pt (zip body (map span (children t)))) \<noteq> []"
          by (simp only: product_lists_Nil not_False_eq_True)
        then obtain cs where "cs \<in> set (product_lists (map ?pt (zip body (map span (children t)))))"
          by (cases "product_lists (map ?pt (zip body (map span (children t))))") auto
        then have "list_all2 (\<lambda>c p. c \<in> set (?pt p)) cs (zip body (map span (children t)))"
          by (simp add: product_lists_set list_all2_map2)
        then have "Tree N (i, j) cs \<in> set (expand G toks C vis N i j)"
          using nv hd js unfolding expand_set by blast
        then show ?thesis by auto
      qed
    qed
  qed
qed

lemma build_trees_nonempty: "build_trees G toks \<noteq> [] \<longleftrightarrow> recognize G toks"
proof
  assume "build_trees G toks \<noteq> []"
  then show "recognize G toks"
    by (auto simp: build_trees_def Let_def recognize_def recorded_def split: if_splits)
next
  assume r: "recognize G toks"
  then obtain t where "derivation G toks (NonTerminal (start G)) t" "span t = (0, length toks)"
    using recorded_derivation [of G toks "start G" 0 "length toks"] by (auto simp: recognize_def)
  then have "expand G toks (chart G toks) [] (start G) 0 (length toks) \<noteq> []"
    using expand_nonempty [OF chart_is_complete, of G toks "start G" t 0 "length toks" "[]"]
    by simp
  then show "build_trees G toks \<noteq> []"
    using r by (simp add: build_trees_def Let_def recognize_def recorded_def)
qed











lemma derives_mono:
  assumes "set (productions G) \<subseteq> set (productions G')"
  shows "derives G X w \<Longrightarrow> derives G' X w"
proof (induction rule: derives.induct)
  case (terminal tm tok)
  then show ?case by (rule derives.terminal)
next
  case (production N body ws)
  have "list_all2 (derives G') body ws"
    using production(2) by (rule list_all2_mono) simp
  moreover have "(N, body) \<in> set (productions G')" using production(1) assms by auto
  ultimately show ?case using derives.production [of N body G' ws] by simp
qed

lemma recognize_add_production:
  "recognize G toks \<Longrightarrow> recognize (add_production G p) toks"
  using derives_mono [of G "add_production G p" "NonTerminal (start G)" toks]
  by (auto simp: recognize_iff add_production_def)










section \<open>Properties of the validation entry point\<close>


lemma except_handler_fields:
  "is_valid (fst (except_handler result e h)) = is_valid result"
  "tokens (fst (except_handler result e h)) = tokens result"
  "parse_trees (fst (except_handler result e h)) = parse_trees result"
  by (simp_all add: except_handler_def split: prod.split)


lemma try_block_tokens: "tokens (fst (try_block self result line h)) = tokenize_request line"
  by (simp add: try_block_def Let_def except_handler_fields
      split: sum.split option.split prod.split)

lemma try_block_regex_valid:
  "use_regex self \<Longrightarrow> \<not> is_valid result \<Longrightarrow>
     is_valid (fst (try_block self result line h)) =
       (\<exists>l. validate_with_regex self (tokenize_request line) = Inr (True, l))"
  by (auto simp: try_block_def Let_def except_handler_fields
      split: sum.splits option.splits prod.splits)

lemma try_block_cfg_valid:
  "\<not> use_regex self \<Longrightarrow> parser self = Some parse \<Longrightarrow> \<not> is_valid result \<Longrightarrow>
     is_valid (fst (try_block self result line h)) =
       (\<exists>trees. parse (tokenize_request line) = Inr trees \<and> trees \<noteq> [])"
  by (auto simp: try_block_def Let_def except_handler_fields
      split: sum.splits option.splits prod.splits)







lemma validate_cfg_valid:
  "\<not> use_regex self \<Longrightarrow>
     is_valid (validate self now line G) = recognize G (tokenize_request line)"
  using try_block_cfg_valid [of "self\<lparr>parser := Some (chart_parser G)\<rparr>" "chart_parser G"
      "new_result (productions G) now line" line "\<lambda>a. []"]
  by (simp add: validate_def chart_parser_def build_trees_nonempty new_result_def)

lemma validate_regex_valid:
  "use_regex self \<Longrightarrow>
     is_valid (validate self now line G) =
       (\<exists>l. validate_with_regex self (tokenize_request line) = Inr (True, l))"
  using try_block_regex_valid [of "self\<lparr>parser := Some (chart_parser G)\<rparr>"
      "new_result (productions G) now line" line "\<lambda>a. []"]
  by (simp add: validate_def new_result_def)



lemma validate_request_validate:
  "validate_request (self\<lparr>parser := Some (chart_parser G), get_grammar_rules := Inr (productions G)\<rparr>)
       now line (\<lambda>a. []) = Inr (r, h') \<Longrightarrow> r = validate self now line G"
  by (auto simp: validate_request_def validate_def try_block_def Let_def
      split: sum.splits prod.splits)

lemma response_validate_request:
  "get_grammar_rules self = Inr rules \<Longrightarrow>
     response (validate_request self now line h) =
       Inr (is_valid (fst (try_block self (new_result rules now line) line h)),
            tokenize_request line,
            parse_trees (fst (try_block self (new_result rules now line) line h)),
            contents (snd (try_block self (new_result rules now line) line h))
              (errors (fst (try_block self (new_result rules now line) line h))))"
  using try_block_tokens [of self "new_result rules now line" line h]
  by (cases "try_block self (new_result rules now line) line h") (simp add: validate_request_def)

lemma response_Inl:
  "response (validate_request self now line h) = Inl e \<longleftrightarrow> get_grammar_rules self = Inl e"
proof (cases "get_grammar_rules self")
  case (Inl e')
  then show ?thesis by (simp add: validate_request_def)
next
  case (Inr rules)
  then show ?thesis using response_validate_request [OF Inr, of now line h] by simp
qed

lemma try_block_errors_cfg:
  assumes "\<not> use_regex self" and "parser self = Some parse" and "errors result = Fresh []"
  shows "parse (tokenize_request line) = Inl e \<Longrightarrow>
      contents (snd (try_block self result line h)) (errors (fst (try_block self result line h)))
        = [''Parsing error: '' @ e]"
    and "parse (tokenize_request line) = Inr [] \<Longrightarrow>
      analyze_parsing_errors self (tokenize_request line) = Inr l \<Longrightarrow>
      contents (snd (try_block self result line h)) (errors (fst (try_block self result line h)))
        = contents h l"
    and "parse (tokenize_request line) = Inr [] \<Longrightarrow>
      analyze_parsing_errors self (tokenize_request line) = Inl e \<Longrightarrow>
      contents (snd (try_block self result line h)) (errors (fst (try_block self result line h)))
        = [''Parsing error: '' @ e]"
  using assms by (simp_all add: try_block_def Let_def except_handler_def)

lemma try_block_errors_none:
  assumes "\<not> use_regex self" and "parser self = None" and "errors result = Fresh []"
  shows "contents (snd (try_block self result line h)) (errors (fst (try_block self result line h))) = []"
    and "is_valid (fst (try_block self result line h)) = is_valid result"
  using assms by (simp_all add: try_block_def Let_def)

lemma try_block_errors_regex:
  assumes "use_regex self" and "errors result = Fresh []"
  shows "validate_with_regex self (tokenize_request line) = Inr (False, l) \<Longrightarrow>
      contents (snd (try_block self result line h)) (errors (fst (try_block self result line h)))
        = contents h l"
    and "validate_with_regex self (tokenize_request line) = Inl e \<Longrightarrow>
      contents (snd (try_block self result line h)) (errors (fst (try_block self result line h)))
        = [''Parsing error: '' @ e]"
  using assms by (simp_all add: try_block_def Let_def except_handler_def)

lemma validate_regex_ignores_grammar:
  "use_regex self \<Longrightarrow> is_valid (validate self now line G) = is_valid (validate self now line G')"
  by (simp add: validate_regex_valid)


section \<open>Properties of the tree statistics\<close>

lemma foldl_add: "foldl (\<lambda>sum child. sum + f child) (a::nat) cs = a + sum_list (map f cs)"
  by (induction cs arbitrary: a) simp_all

lemma node_count_split:
  "getNodeCount t = getNonTerminalCount t + getTerminalCount t"
proof (induction t)
  case Null
  show ?case by simp
next
  case (TreeNode l ch)
  show ?case
  proof (cases ch)
    case None
    then show ?thesis by simp
  next
    case (Some cs)
    have "\<forall>c \<in> set cs. getNodeCount c = getNonTerminalCount c + getTerminalCount c"
      using TreeNode Some by auto
    then have "sum_list (map getNodeCount cs)
        = sum_list (map getNonTerminalCount cs) + sum_list (map getTerminalCount cs)"
      by (induction cs) simp_all
    then show ?thesis using Some by (simp add: foldl_add)
  qed
qed

section \<open>Claims about validation\<close>

text \<open>
  Claim C1, as stated: for every grammar and every line, \<open>validate\<close> reports
  \<open>is_valid = true\<close> if and only if the tokens of the tokenizer are derivable from the start
  symbol, that is, the chart records the start symbol over the full span \<open>[0, n)\<close> of the
  tokens, and no other condition makes validation succeed. The sources have a second
  mode: with \<open>self.use_regex\<close> set, \<open>is_valid\<close> is what the regex validator reports, and
  neither the grammar nor the chart is consulted. With a validator that accepts every
  line, the line \<open>"AB"\<close> is valid under \<open>S \<rightarrow> "A" SP "B"\<close>, from whose start symbol its one
  token is not derivable. And whatever the validator computes, the line \<open>"A B"\<close> gets the
  same flag under that grammar, which derives its three tokens, and under
  \<open>S \<rightarrow> S SP S | "x"\<close>, which does not.
\<close>

theorem validate_regex_mode_counterexample:
  "is_valid (validate (example_engine\<lparr>use_regex := True\<rparr>) ''t0'' ''AB'' example_grammar)
   \<and> \<not> derives example_grammar (NonTerminal (start example_grammar)) (tokenize_request ''AB'')
   \<and> \<not> recorded example_grammar (tokenize_request ''AB'') (start example_grammar) 0
        (length (tokenize_request ''AB''))
   \<and> is_valid (validate (example_engine\<lparr>use_regex := True\<rparr>) ''t0'' ''A B'' example_grammar)
       = is_valid (validate (example_engine\<lparr>use_regex := True\<rparr>) ''t0'' ''A B'' ambiguous_grammar)
   \<and> derives example_grammar (NonTerminal (start example_grammar)) (tokenize_request ''A B'')
   \<and> \<not> derives ambiguous_grammar (NonTerminal (start ambiguous_grammar)) (tokenize_request ''A B'')"
proof -
  have v: "is_valid (validate (example_engine\<lparr>use_regex := True\<rparr>) ''t0'' ''AB'' example_grammar)"
    by code_simp
  have r1: "\<not> recognize example_grammar (tokenize_request ''AB'')" by code_simp
  have e: "is_valid (validate (example_engine\<lparr>use_regex := True\<rparr>) ''t0'' ''A B'' example_grammar)
       = is_valid (validate (example_engine\<lparr>use_regex := True\<rparr>) ''t0'' ''A B'' ambiguous_grammar)"
    by code_simp
  have r2: "recognize example_grammar (tokenize_request ''A B'')" by code_simp
  have r3: "\<not> recognize ambiguous_grammar (tokenize_request ''A B'')" by code_simp
  show ?thesis
    using v e r1 r2 r3 by (simp add: recognize_iff [symmetric]) (simp add: recognize_def)
qed

text \<open>
  Claim C1, amended: in CFG mode (\<open>use_regex\<close> is false and a parser is present),
  \<open>validate\<close> reports \<open>is_valid = true\<close> if and only if the parser returns at least one
  parse of the tokenizer's tokens (first conjunct, for the method of the sources and any
  parser object); for the chart parser of the grammar this is the case if and only if the
  tokens are derivable from the start symbol of the grammar, and they are derivable if
  and only if the chart records the start symbol over the full span \<open>[0, n)\<close> (second
  conjunct). In regex mode it reports \<open>is_valid = true\<close> if and only if the regex validator
  returns a valid verdict (third conjunct).
\<close>

theorem validate_valid_iff_derivable:
  "(\<not> use_regex self \<and> parser self = Some parse
      \<and> response (validate_request self now line h) = Inr (v, ts, ds, es) \<longrightarrow>
      (v \<longleftrightarrow> (\<exists>trees. parse (tokenize_request line) = Inr trees \<and> trees \<noteq> [])))
   \<and> (\<not> use_regex self \<longrightarrow>
      (is_valid (validate self now line G) \<longleftrightarrow>
         derives G (NonTerminal (start G)) (tokenize_request line))
      \<and> (derives G (NonTerminal (start G)) (tokenize_request line) \<longleftrightarrow>
         recorded G (tokenize_request line) (start G) 0 (length (tokenize_request line))))
   \<and> (use_regex self \<longrightarrow>
      (is_valid (validate self now line G) \<longleftrightarrow>
         (\<exists>l. validate_with_regex self (tokenize_request line) = Inr (True, l))))"
proof (intro conjI impI)
  assume a: "\<not> use_regex self \<and> parser self = Some parse
      \<and> response (validate_request self now line h) = Inr (v, ts, ds, es)"
  then obtain rules where g: "get_grammar_rules self = Inr rules"
    by (cases "get_grammar_rules self") (auto simp: validate_request_def)
  have "v = is_valid (fst (try_block self (new_result rules now line) line h))"
    using a response_validate_request [OF g, of now line h] by simp
  then show "v \<longleftrightarrow> (\<exists>trees. parse (tokenize_request line) = Inr trees \<and> trees \<noteq> [])"
    using a try_block_cfg_valid [of self parse "new_result rules now line" line h]
    by (simp add: new_result_def)
next
  assume "\<not> use_regex self"
  then show "is_valid (validate self now line G) \<longleftrightarrow>
      derives G (NonTerminal (start G)) (tokenize_request line)"
    by (simp add: validate_cfg_valid recognize_iff)
next
  show "derives G (NonTerminal (start G)) (tokenize_request line) \<longleftrightarrow>
      recorded G (tokenize_request line) (start G) 0 (length (tokenize_request line))"
    using recognize_iff [of G "tokenize_request line"] by (simp add: recognize_def)
next
  assume "use_regex self"
  then show "is_valid (validate self now line G) \<longleftrightarrow>
      (\<exists>l. validate_with_regex self (tokenize_request line) = Inr (True, l))"
    by (rule validate_regex_valid)
qed

theorem validate_valid_iff_derivable_witness:
  "\<not> use_regex example_engine
   \<and> is_valid (validate example_engine ''t0'' ''A B'' example_grammar)
   \<and> derives example_grammar (NonTerminal (start example_grammar)) (tokenize_request ''A B'')
   \<and> recorded example_grammar (tokenize_request ''A B'') (start example_grammar) 0
        (length (tokenize_request ''A B''))
   \<and> \<not> is_valid (validate example_engine ''t0'' ''AB'' example_grammar)
   \<and> \<not> derives example_grammar (NonTerminal (start example_grammar)) (tokenize_request ''AB'')
   \<and> is_valid (validate example_engine ''t0'' ''x'' unit_grammar)
   \<and> derives unit_grammar (NonTerminal (start unit_grammar)) (tokenize_request ''x'')
   \<and> is_valid (validate example_engine ''t0'' ''x'' nullable_grammar)
   \<and> derives nullable_grammar (NonTerminal (start nullable_grammar)) (tokenize_request ''x'')
   \<and> use_regex (example_engine\<lparr>use_regex := True\<rparr>)
   \<and> is_valid (validate (example_engine\<lparr>use_regex := True\<rparr>) ''t0'' ''AB'' example_grammar)
   \<and> parser (example_engine\<lparr>parser := Some (\<lambda>toks. Inl ''no coverage'')\<rparr>)
        = Some (\<lambda>toks. Inl ''no coverage'')
   \<and> response (validate_request (example_engine\<lparr>parser := Some (\<lambda>toks. Inl ''no coverage'')\<rparr>)
        ''t0'' ''A B'' (\<lambda>a. []))
       = Inr (False, [''A'', '' '', ''B''], [], [''Parsing error: no coverage''])"
proof -
  let ?bad = "example_engine\<lparr>parser := Some (\<lambda>toks. Inl ''no coverage'')\<rparr>"
  have m: "\<not> use_regex example_engine"
    by (simp add: example_engine_def)
  have v1: "is_valid (validate example_engine ''t0'' ''A B'' example_grammar)" by code_simp
  have v2: "\<not> is_valid (validate example_engine ''t0'' ''AB'' example_grammar)" by code_simp
  have v3: "is_valid (validate example_engine ''t0'' ''x'' unit_grammar)" by code_simp
  have v4: "is_valid (validate example_engine ''t0'' ''x'' nullable_grammar)" by code_simp
  have v5: "is_valid (validate (example_engine\<lparr>use_regex := True\<rparr>) ''t0'' ''AB'' example_grammar)"
    by code_simp
  have b: "\<not> use_regex ?bad" "parser ?bad = Some (\<lambda>toks. Inl ''no coverage'')"
    by (simp_all add: example_engine_def)
  have rb: "response (validate_request ?bad ''t0'' ''A B'' (\<lambda>a. []))
       = Inr (False, [''A'', '' '', ''B''], [], [''Parsing error: no coverage''])"
    by code_simp
  show ?thesis
    using m v1 v2 v3 v4 v5 b rb
      validate_valid_iff_derivable [where self = "example_engine"
        and parse = "\<lambda>toks. Inr []" and now = "''t0''" and line = "''A B''"
        and h = "\<lambda>a. []" and v = False and ts = "[]" and ds = "[]" and es = "[]"
        and G = "example_grammar"]
      validate_valid_iff_derivable [where self = "example_engine"
        and parse = "\<lambda>toks. Inr []" and now = "''t0''" and line = "''AB''"
        and h = "\<lambda>a. []" and v = False and ts = "[]" and ds = "[]" and es = "[]"
        and G = "example_grammar"]
      validate_valid_iff_derivable [where self = "example_engine"
        and parse = "\<lambda>toks. Inr []" and now = "''t0''" and line = "''x''"
        and h = "\<lambda>a. []" and v = False and ts = "[]" and ds = "[]" and es = "[]"
        and G = "unit_grammar"]
      validate_valid_iff_derivable [where self = "example_engine"
        and parse = "\<lambda>toks. Inr []" and now = "''t0''" and line = "''x''"
        and h = "\<lambda>a. []" and v = False and ts = "[]" and ds = "[]" and es = "[]"
        and G = "nullable_grammar"]
      validate_valid_iff_derivable [where self = "?bad"
        and parse = "\<lambda>toks. Inl ''no coverage''" and now = "''t0''" and line = "''A B''"
        and h = "\<lambda>a. []" and v = False and ts = "[''A'', '' '', ''B'']" and ds = "[]"
        and es = "[''Parsing error: no coverage'']"
        and G = "example_grammar"]
    by simp
qed




text \<open>
  Claim C4, as stated: tokenizing never fails, and for every invalid line \<open>validate\<close>
  returns \<open>is_valid = false\<close> with a populated list of errors instead of raising. Three
  things in the sources stand against it. The branch \<open>if self.parser:\<close> has no \<open>else\<close>: on
  an object without a parser (and not in regex mode) every line comes back with
  \<open>is_valid = false\<close> and an empty list of errors. For a line without a parse the list of
  errors is what \<open>_analyze_parsing_errors\<close> returns: when that is an empty list, the result
  has one. And \<open>self.get_grammar_rules()\<close> is called before \<open>try:\<close>, so an exception it raises
  leaves the method.
\<close>

theorem validate_request_errors_counterexample:
  "response (validate_request example_engine ''t0'' ''AB'' (\<lambda>a. [])) = Inr (False, [''AB''], [], [])
   \<and> response (validate_request
        (example_engine\<lparr>parser := Some (chart_parser example_grammar),
           analyze_parsing_errors := (\<lambda>toks. Inr (Fresh []))\<rparr>) ''t0'' ''AB'' (\<lambda>a. []))
       = Inr (False, [''AB''], [], [])
   \<and> response (validate_request
        (example_engine\<lparr>parser := Some (chart_parser example_grammar),
           get_grammar_rules := Inl ''no grammar''\<rparr>) ''t0'' ''AB'' (\<lambda>a. []))
       = Inl ''no grammar''"
  by code_simp

text \<open>
  Claim C4, amended: the tokenizer returns a token list for every string (it is a total
  function with no failing branch), and \<open>validate_request\<close> raises exactly when
  \<open>get_grammar_rules\<close> does (first conjunct); when \<open>get_grammar_rules\<close> returns,
  \<open>validate_request\<close> returns a result, and every result carries the tokens of the tokenizer
  (second conjunct). In CFG mode with a parser present, for every line that the parser
  gives no parse or fails on, the result has \<open>is_valid = false\<close> and a populated list of
  errors, provided the diagnostic analyzer returns at least one message when it returns
  (third conjunct); a failure of the parser is caught and becomes the one entry
  \<open>"Parsing error: ..."\<close> (fourth). With no parser present the result has \<open>is_valid = false\<close>
  and an empty list of errors (fifth). In regex mode a line that the regex validator
  rejects comes back with \<open>is_valid = false\<close> and the errors of the validator (sixth), and a
  failure of the validator is caught in the same way (seventh).
\<close>

theorem validate_request_invalid_line:
  fixes self :: "('t, 'd, 'r) HTTPRequestCFGParser"
  shows "(response (validate_request self now line h) = Inl e \<longleftrightarrow> get_grammar_rules self = Inl e)
   \<and> (get_grammar_rules self = Inr rules \<longrightarrow>
      (\<exists>v ds es. response (validate_request self now line h)
          = Inr (v, tokenize_request line, ds, es)))
   \<and> (\<not> use_regex self \<and> parser self = Some parse
      \<and> (parse (tokenize_request line) = Inr [] \<or> parse (tokenize_request line) = Inl e)
      \<and> (\<forall>l. analyze_parsing_errors self (tokenize_request line) = Inr l \<longrightarrow> contents h l \<noteq> [])
      \<and> response (validate_request self now line h) = Inr (v, ts, ds, es)
     \<longrightarrow> \<not> v \<and> es \<noteq> [])
   \<and> (\<not> use_regex self \<and> parser self = Some parse \<and> parse (tokenize_request line) = Inl e
      \<and> response (validate_request self now line h) = Inr (v, ts, ds, es)
     \<longrightarrow> es = [''Parsing error: '' @ e])
   \<and> (\<not> use_regex self \<and> parser self = None
      \<and> response (validate_request self now line h) = Inr (v, ts, ds, es)
     \<longrightarrow> \<not> v \<and> es = [])
   \<and> (use_regex self \<and> validate_with_regex self (tokenize_request line) = Inr (False, l)
      \<and> response (validate_request self now line h) = Inr (v, ts, ds, es)
     \<longrightarrow> \<not> v \<and> es = contents h l)
   \<and> (use_regex self \<and> validate_with_regex self (tokenize_request line) = Inl e
      \<and> response (validate_request self now line h) = Inr (v, ts, ds, es)
     \<longrightarrow> \<not> v \<and> es = [''Parsing error: '' @ e])"
proof -
  have raise: "response (validate_request self now line h) = Inl e \<longleftrightarrow> get_grammar_rules self = Inl e"
    by (rule response_Inl)
  have ret: "\<exists>v ds es. response (validate_request self now line h)
      = Inr (v, tokenize_request line, ds, es)" if "get_grammar_rules self = Inr rules"
    using response_validate_request [OF that, of now line h] by blast
  have rest: "P" if r: "response (validate_request self now line h) = Inr (v, ts, ds, es)"
    and p: "\<And>rules :: 'r. v = is_valid (fst (try_block self (new_result rules now line) line h))
        \<Longrightarrow> es = contents (snd (try_block self (new_result rules now line) line h))
              (errors (fst (try_block self (new_result rules now line) line h))) \<Longrightarrow> P" for P
  proof -
    obtain rules where g: "get_grammar_rules self = Inr rules"
      using r by (cases "get_grammar_rules self") (auto simp: validate_request_def)
    show P using r response_validate_request [OF g, of now line h] p [of rules] by simp
  qed
  have new: "errors (new_result rules now line) = Fresh []" "\<not> is_valid (new_result rules now line)"
    for rules :: 'r
    by (simp_all add: new_result_def)
  have c3: "\<not> v \<and> es \<noteq> []"
    if a: "\<not> use_regex self \<and> parser self = Some parse
      \<and> (parse (tokenize_request line) = Inr [] \<or> parse (tokenize_request line) = Inl e)
      \<and> (\<forall>l. analyze_parsing_errors self (tokenize_request line) = Inr l \<longrightarrow> contents h l \<noteq> [])
      \<and> response (validate_request self now line h) = Inr (v, ts, ds, es)"
  proof (rule rest)
    show "response (validate_request self now line h) = Inr (v, ts, ds, es)" using a by simp
  next
    fix rules :: 'r
    let ?r = "new_result rules now line"
    assume v: "v = is_valid (fst (try_block self ?r line h))"
      and es: "es = contents (snd (try_block self ?r line h)) (errors (fst (try_block self ?r line h)))"
    have m: "\<not> use_regex self" and ps: "parser self = Some parse" using a by simp_all
    have "v = (\<exists>trees. parse (tokenize_request line) = Inr trees \<and> trees \<noteq> [])"
      unfolding v by (rule try_block_cfg_valid [OF m ps new(2)])
    then have nv: "\<not> v" using a by auto
    have "es \<noteq> []"
    proof (cases "parse (tokenize_request line)")
      case (Inl e')
      show ?thesis unfolding es try_block_errors_cfg(1) [OF m ps new(1) Inl] by simp
    next
      case (Inr trees)
      then have p: "parse (tokenize_request line) = Inr []" using a by auto
      show ?thesis
      proof (cases "analyze_parsing_errors self (tokenize_request line)")
        case (Inl e')
        show ?thesis unfolding es try_block_errors_cfg(3) [OF m ps new(1) p Inl] by simp
      next
        case (Inr l)
        then have "contents h l \<noteq> []" using a by simp
        then show ?thesis unfolding es try_block_errors_cfg(2) [OF m ps new(1) p Inr] .
      qed
    qed
    then show "\<not> v \<and> es \<noteq> []" using nv by simp
  qed
  have c4: "es = [''Parsing error: '' @ e]"
    if a: "\<not> use_regex self \<and> parser self = Some parse \<and> parse (tokenize_request line) = Inl e
      \<and> response (validate_request self now line h) = Inr (v, ts, ds, es)"
  proof (rule rest)
    show "response (validate_request self now line h) = Inr (v, ts, ds, es)" using a by simp
  next
    fix rules :: 'r
    let ?r = "new_result rules now line"
    assume es: "es = contents (snd (try_block self ?r line h)) (errors (fst (try_block self ?r line h)))"
    have m: "\<not> use_regex self" and ps: "parser self = Some parse"
      and pe: "parse (tokenize_request line) = Inl e"
      using a by simp_all
    show "es = [''Parsing error: '' @ e]"
      unfolding es by (rule try_block_errors_cfg(1) [OF m ps new(1) pe])
  qed
  have c5: "\<not> v \<and> es = []"
    if a: "\<not> use_regex self \<and> parser self = None
      \<and> response (validate_request self now line h) = Inr (v, ts, ds, es)"
  proof (rule rest)
    show "response (validate_request self now line h) = Inr (v, ts, ds, es)" using a by simp
  next
    fix rules :: 'r
    let ?r = "new_result rules now line"
    assume v: "v = is_valid (fst (try_block self ?r line h))"
      and es: "es = contents (snd (try_block self ?r line h)) (errors (fst (try_block self ?r line h)))"
    have m: "\<not> use_regex self" and ps: "parser self = None" using a by simp_all
    show "\<not> v \<and> es = []"
      unfolding v es try_block_errors_none [OF m ps new(1)] using new(2) by simp
  qed
  have c6: "\<not> v \<and> es = contents h l"
    if a: "use_regex self \<and> validate_with_regex self (tokenize_request line) = Inr (False, l)
      \<and> response (validate_request self now line h) = Inr (v, ts, ds, es)"
  proof (rule rest)
    show "response (validate_request self now line h) = Inr (v, ts, ds, es)" using a by simp
  next
    fix rules :: 'r
    let ?r = "new_result rules now line"
    assume v: "v = is_valid (fst (try_block self ?r line h))"
      and es: "es = contents (snd (try_block self ?r line h)) (errors (fst (try_block self ?r line h)))"
    have m: "use_regex self"
      and w: "validate_with_regex self (tokenize_request line) = Inr (False, l)"
      using a by simp_all
    show "\<not> v \<and> es = contents h l"
      unfolding v es try_block_errors_regex(1) [OF m new(1) w]
        try_block_regex_valid [OF m new(2)]
      using w by simp
  qed
  have c7: "\<not> v \<and> es = [''Parsing error: '' @ e]"
    if a: "use_regex self \<and> validate_with_regex self (tokenize_request line) = Inl e
      \<and> response (validate_request self now line h) = Inr (v, ts, ds, es)"
  proof (rule rest)
    show "response (validate_request self now line h) = Inr (v, ts, ds, es)" using a by simp
  next
    fix rules :: 'r
    let ?r = "new_result rules now line"
    assume v: "v = is_valid (fst (try_block self ?r line h))"
      and es: "es = contents (snd (try_block self ?r line h)) (errors (fst (try_block self ?r line h)))"
    have m: "use_regex self"
      and w: "validate_with_regex self (tokenize_request line) = Inl e"
      using a by simp_all
    show "\<not> v \<and> es = [''Parsing error: '' @ e]"
      unfolding v es try_block_errors_regex(2) [OF m new(1) w]
        try_block_regex_valid [OF m new(2)]
      using w by simp
  qed
  show ?thesis using raise ret c3 c4 c5 c6 c7 by blast
qed

theorem validate_request_invalid_line_witness:
  "response (validate_request (example_engine\<lparr>parser := Some (chart_parser example_grammar)\<rparr>)
        ''t0'' ''AB'' (\<lambda>a. []))
     = Inr (False, [''AB''], [], [''No derivation''])
   \<and> response (validate_request (example_engine\<lparr>parser := Some (\<lambda>toks. Inl ''no coverage'')\<rparr>)
        ''t0'' ''AB'' (\<lambda>a. []))
     = Inr (False, [''AB''], [], [''Parsing error: no coverage''])
   \<and> response (validate_request example_engine ''t0'' ''AB'' (\<lambda>a. []))
     = Inr (False, [''AB''], [], [])
   \<and> response (validate_request
        (example_engine\<lparr>use_regex := True,
           validate_with_regex := (\<lambda>toks. Inr (False, Fresh [''Invalid HTTP method'']))\<rparr>)
        ''t0'' ''AB'' (\<lambda>a. []))
     = Inr (False, [''AB''], [], [''Invalid HTTP method''])
   \<and> response (validate_request
        (example_engine\<lparr>use_regex := True, validate_with_regex := (\<lambda>toks. Inl ''bad pattern'')\<rparr>)
        ''t0'' ''AB'' (\<lambda>a. []))
     = Inr (False, [''AB''], [], [''Parsing error: bad pattern''])
   \<and> get_grammar_rules (example_engine\<lparr>get_grammar_rules := Inl ''no grammar''\<rparr>)
     = Inl ''no grammar''
   \<and> response (validate_request (example_engine\<lparr>get_grammar_rules := Inl ''no grammar''\<rparr>)
        ''t0'' ''AB'' (\<lambda>a. []))
     = Inl ''no grammar''"
proof -
  let ?cfg = "example_engine\<lparr>parser := Some (chart_parser example_grammar)\<rparr>"
  let ?bad = "example_engine\<lparr>parser := Some (\<lambda>toks. Inl ''no coverage'')\<rparr>"
  let ?rej = "example_engine\<lparr>use_regex := True,
      validate_with_regex := (\<lambda>toks. Inr (False, Fresh [''Invalid HTTP method'']))\<rparr>"
  let ?exc = "example_engine\<lparr>use_regex := True, validate_with_regex := (\<lambda>toks. Inl ''bad pattern'')\<rparr>"
  let ?rai = "example_engine\<lparr>get_grammar_rules := Inl ''no grammar''\<rparr>"
  have t: "tokenize_request ''AB'' = [''AB'']" by code_simp
  have p: "chart_parser example_grammar (tokenize_request ''AB'') = Inr []" by code_simp
  have r1: "response (validate_request ?cfg ''t0'' ''AB'' (\<lambda>a. []))
      = Inr (False, [''AB''], [], [''No derivation''])" by code_simp
  have r2: "response (validate_request ?bad ''t0'' ''AB'' (\<lambda>a. []))
      = Inr (False, [''AB''], [], [''Parsing error: no coverage''])" by code_simp
  have r3: "response (validate_request example_engine ''t0'' ''AB'' (\<lambda>a. []))
      = Inr (False, [''AB''], [], [])" by code_simp
  have r4: "response (validate_request ?rej ''t0'' ''AB'' (\<lambda>a. []))
      = Inr (False, [''AB''], [], [''Invalid HTTP method''])" by code_simp
  have r5: "response (validate_request ?exc ''t0'' ''AB'' (\<lambda>a. []))
      = Inr (False, [''AB''], [], [''Parsing error: bad pattern''])" by code_simp
  have c: "\<not> use_regex ?cfg" "parser ?cfg = Some (chart_parser example_grammar)"
    "\<forall>l. analyze_parsing_errors ?cfg (tokenize_request ''AB'') = Inr l \<longrightarrow> contents (\<lambda>a. []) l \<noteq> []"
    by (auto simp: example_engine_def)
  have b: "\<not> use_regex ?bad" "parser ?bad = Some (\<lambda>toks. Inl ''no coverage'')"
    by (simp_all add: example_engine_def)
  have n: "\<not> use_regex example_engine" "parser example_engine = None"
    by (simp_all add: example_engine_def)
  have r: "use_regex ?rej"
    "validate_with_regex ?rej (tokenize_request ''AB'') = Inr (False, Fresh [''Invalid HTTP method''])"
    by simp_all
  have x: "use_regex ?exc" "validate_with_regex ?exc (tokenize_request ''AB'') = Inl ''bad pattern''"
    by simp_all
  have g: "get_grammar_rules ?rai = Inl ''no grammar''" by simp
  show ?thesis
    using t p r1 r2 r3 r4 r5 c b n r x g
      validate_request_invalid_line [where self = "?cfg"
        and parse = "chart_parser example_grammar" and line = "''AB''" and e = "[]"
        and now = "''t0''" and h = "\<lambda>a. []" and rules = "()" and l = "Fresh []"
        and v = False and ts = "[''AB'']" and ds = "[]" and es = "[''No derivation'']"]
      validate_request_invalid_line [where self = "?bad"
        and parse = "\<lambda>toks. Inl ''no coverage''" and line = "''AB''" and e = "''no coverage''"
        and now = "''t0''" and h = "\<lambda>a. []" and rules = "()" and l = "Fresh []"
        and v = False and ts = "[''AB'']" and ds = "[]" and es = "[''Parsing error: no coverage'']"]
      validate_request_invalid_line [where self = "example_engine"
        and parse = "\<lambda>toks. Inr []" and line = "''AB''" and e = "[]"
        and now = "''t0''" and h = "\<lambda>a. []" and rules = "()" and l = "Fresh []"
        and v = False and ts = "[''AB'']" and ds = "[]" and es = "[]"]
      validate_request_invalid_line [where self = "?rej"
        and parse = "\<lambda>toks. Inr []" and line = "''AB''" and e = "[]"
        and now = "''t0''" and h = "\<lambda>a. []" and rules = "()"
        and l = "Fresh [''Invalid HTTP method'']"
        and v = False and ts = "[''AB'']" and ds = "[]" and es = "[''Invalid HTTP method'']"]
      validate_request_invalid_line [where self = "?exc"
        and parse = "\<lambda>toks. Inr []" and line = "''AB''" and e = "''bad pattern''"
        and now = "''t0''" and h = "\<lambda>a. []" and rules = "()" and l = "Fresh []"
        and v = False and ts = "[''AB'']" and ds = "[]" and es = "[''Parsing error: bad pattern'']"]
      validate_request_invalid_line [where self = "?rai"
        and parse = "\<lambda>toks. Inr []" and line = "''AB''" and e = "''no grammar''"
        and now = "''t0''" and h = "\<lambda>a. []" and rules = "()" and l = "Fresh []"
        and v = False and ts = "[''AB'']" and ds = "[]" and es = "[]"]
    by simp
qed







text \<open>
  Claim C8: a line that \<open>validate\<close> accepts under a grammar is accepted under the grammar
  extended by one more production. In CFG mode a line is accepted exactly when its tokens
  are derivable, and a derivation stays one when productions are added; in regex mode the
  verdict does not read the grammar.
\<close>

theorem validate_monotone:
  "is_valid (validate self now line G) \<Longrightarrow>
     is_valid (validate self now line (add_production G p))"
proof (cases "use_regex self")
  case True
  assume "is_valid (validate self now line G)"
  then show ?thesis
    using validate_regex_ignores_grammar [OF True, of now line G "add_production G p"] by simp
next
  case False
  assume "is_valid (validate self now line G)"
  then show ?thesis
    using False recognize_add_production [of G "tokenize_request line" p]
    by (simp add: validate_cfg_valid)
qed

theorem validate_monotone_witness:
  "is_valid (validate example_engine ''t0'' ''A B'' example_grammar)
   \<and> is_valid (validate example_engine ''t0'' ''A B''
        (add_production example_grammar (''S'', [Terminal (LiteralClass [''AB'', ''BA''])])))
   \<and> \<not> is_valid (validate example_engine ''t0'' ''AB'' example_grammar)
   \<and> is_valid (validate example_engine ''t0'' ''AB''
        (add_production example_grammar (''S'', [Terminal (LiteralClass [''AB'', ''BA''])])))"
proof -
  have v: "is_valid (validate example_engine ''t0'' ''A B'' example_grammar)" by code_simp
  have n: "\<not> is_valid (validate example_engine ''t0'' ''AB'' example_grammar)" by code_simp
  have a: "is_valid (validate example_engine ''t0'' ''AB''
        (add_production example_grammar (''S'', [Terminal (LiteralClass [''AB'', ''BA''])])))"
    by code_simp
  show ?thesis
    using v n a
      validate_monotone [OF v, of "(''S'', [Terminal (LiteralClass [''AB'', ''BA''])])"]
    by simp
qed

section \<open>Claim about the tree statistics\<close>

text \<open>
  Claim C10: for every node, \<open>getNodeCount\<close> is the sum of \<open>getNonTerminalCount\<close> and
  \<open>getTerminalCount\<close>; a node is counted as a terminal when it has no children (none, or
  an empty array) and as a non-terminal otherwise, and a missing node counts as nothing.
\<close>

theorem node_count_decomposition:
  "getNodeCount t = getNonTerminalCount t + getTerminalCount t"
  by (rule node_count_split)

theorem node_count_decomposition_witness:
  "getNodeCount (TreeNode ''S'' (Some [TreeNode ''A'' (Some []), Null, TreeNode ''B'' None,
       TreeNode ''T'' (Some [TreeNode ''x'' (Some [])])])) = 5
   \<and> getNonTerminalCount (TreeNode ''S'' (Some [TreeNode ''A'' (Some []), Null,
       TreeNode ''B'' None, TreeNode ''T'' (Some [TreeNode ''x'' (Some [])])])) = 2
   \<and> getTerminalCount (TreeNode ''S'' (Some [TreeNode ''A'' (Some []), Null,
       TreeNode ''B'' None, TreeNode ''T'' (Some [TreeNode ''x'' (Some [])])])) = 3"
proof -
  have "getNonTerminalCount (TreeNode ''S'' (Some [TreeNode ''A'' (Some []), Null,
       TreeNode ''B'' None, TreeNode ''T'' (Some [TreeNode ''x'' (Some [])])])) = 2"
    by simp
  moreover have "getTerminalCount (TreeNode ''S'' (Some [TreeNode ''A'' (Some []), Null,
       TreeNode ''B'' None, TreeNode ''T'' (Some [TreeNode ''x'' (Some [])])])) = 3"
    by simp
  ultimately show ?thesis
    using node_count_decomposition [of "TreeNode ''S'' (Some [TreeNode ''A'' (Some []), Null,
       TreeNode ''B'' None, TreeNode ''T'' (Some [TreeNode ''x'' (Some [])])])"]
    by (simp only:) simp
qed

end

